theory Spec2Isabelle
  imports Main "HOL-Library.Monad_Syntax"
begin

section \<open>The Quoridor engine of \<open>Quoridor.py\<close>\<close>

text \<open>
  The class \<open>QuoridorGame\<close> keeps three 9 by 9 arrays in \<open>_board\<close> (index 0 the pawns,
  index 1 the vertical fences, index 2 the horizontal fences, each read as
  \<open>_board[array][column][row]\<close>), two fence counters and the turn flag. A method that
  mutates \<open>self\<close> takes the game and returns the new one. A result of type \<open>'a option\<close>
  is \<open>None\<close> where the Python raises (an \<open>IndexError\<close> of a list read, or the
  \<open>TypeError\<close> of subscripting the \<open>None\<close> that \<open>_position\<close> returns for a player
  without a pawn).
\<close>

subsection \<open>Python lists\<close>

text \<open>
  \<open>xs[i]\<close>: an index from \<open>-len(xs)\<close> to \<open>len(xs) - 1\<close> is accepted, a negative one counts
  from the end, any other raises \<open>IndexError\<close>.
\<close>

definition py_index :: "'a list \<Rightarrow> int \<Rightarrow> 'a option" where
  "py_index xs i =
     (let n = int (length xs) in
      if 0 \<le> i \<and> i < n then Some (xs ! nat i)
      else if - n \<le> i \<and> i < 0 then Some (xs ! nat (n + i))
      else None)"

text \<open>\<open>xs[i] = v\<close>, with the same index rule.\<close>

definition py_store :: "'a list \<Rightarrow> int \<Rightarrow> 'a \<Rightarrow> 'a list option" where
  "py_store xs i v =
     (let n = int (length xs) in
      if 0 \<le> i \<and> i < n then Some (xs[nat i := v])
      else if - n \<le> i \<and> i < 0 then Some (xs[nat (n + i) := v])
      else None)"

subsection \<open>The game state\<close>

type_synonym cell = "int \<times> int"

record game =
  board :: "int list list list"
  player_one_fences :: int
  player_two_fences :: int
  first_player_turn :: bool

text \<open>\<open>__init__\<close>: three arrays of zeros, the pawns at (4,0) and (4,8), ten fences each.\<close>

definition init_game :: game where
  "init_game =
     \<lparr> board = [ (replicate 9 (replicate 9 0))[4 := (replicate 9 0)[0 := 1, 8 := 2]],
                 replicate 9 (replicate 9 0),
                 replicate 9 (replicate 9 0) ],
       player_one_fences = 10,
       player_two_fences = 10,
       first_player_turn = True \<rparr>"

text \<open>The read \<open>self._board[a][x][y]\<close> and the assignment \<open>self._board[a][x][y] = v\<close>.\<close>

definition board_get :: "game \<Rightarrow> int \<Rightarrow> int \<Rightarrow> int \<Rightarrow> int option" where
  "board_get s a x y =
     do { arr \<leftarrow> py_index (board s) a;
          col \<leftarrow> py_index arr x;
          py_index col y }"

definition board_set :: "game \<Rightarrow> int \<Rightarrow> int \<Rightarrow> int \<Rightarrow> int \<Rightarrow> game option" where
  "board_set s a x y v =
     do { arr \<leftarrow> py_index (board s) a;
          col \<leftarrow> py_index arr x;
          col' \<leftarrow> py_store col y v;
          arr' \<leftarrow> py_store arr x col';
          b' \<leftarrow> py_store (board s) a arr';
          Some (s\<lparr>board := b'\<rparr>) }"

subsection \<open>\<open>_position\<close>\<close>

text \<open>
  The scan over \<open>range(9)\<close> columns and rows of the pawn array; the first cell holding
  \<open>player\<close> is returned, and the Python \<open>None\<close> (here \<open>None\<close>) when the loop ends.
\<close>

fun position_from :: "int list list \<Rightarrow> int \<Rightarrow> nat list \<Rightarrow> cell option" where
  "position_from arr player [] = None"
| "position_from arr player (column # rest) =
     (if player \<in> set (arr ! column) then
        (case find (\<lambda>row. arr ! column ! row = player) [0..<9] of
           Some row \<Rightarrow> Some (int column, int row)
         | None \<Rightarrow> position_from arr player rest)
      else position_from arr player rest)"

definition position :: "game \<Rightarrow> int \<Rightarrow> cell option" where
  "position s player = position_from (board s ! 0) player [0..<9]"

subsection \<open>\<open>is_winner\<close> and \<open>_player_may_move\<close>\<close>

definition is_winner :: "game \<Rightarrow> int \<Rightarrow> bool option" where
  "is_winner s player =
     do { one \<leftarrow> (if player = 1 then do { p \<leftarrow> position s player; Some (snd p = 8) }
                  else Some False);
          if one then Some True
          else do {
            two \<leftarrow> (if player = 2 then do { p \<leftarrow> position s player; Some (snd p = 0) }
                    else Some False);
            if two then Some True else Some False } }"

definition player_may_move :: "game \<Rightarrow> int \<Rightarrow> bool option" where
  "player_may_move s player =
     do { w1 \<leftarrow> is_winner s 1;
          won \<leftarrow> (if w1 then Some True else is_winner s 2);
          if won then Some False
          else if player = 1 \<and> \<not> first_player_turn s then Some False
          else if player = 2 \<and> first_player_turn s then Some False
          else Some True }"

subsection \<open>\<open>_is_adjacent\<close> and \<open>_move_blocked\<close>\<close>

text \<open>
  \<open>_is_adjacent(origin, target)\<close> subscripts \<open>origin\<close> and only compares \<open>target\<close>, so a
  \<open>None\<close> origin raises and a \<open>None\<close> target is merely not in the list.
\<close>

definition is_adjacent :: "cell option \<Rightarrow> cell option \<Rightarrow> bool option" where
  "is_adjacent origin target =
     do { org \<leftarrow> origin;
          Some (target \<in> set [Some (fst org, snd org + 1), Some (fst org, snd org - 1),
                              Some (fst org + 1, snd org), Some (fst org - 1, snd org)]) }"

definition move_blocked :: "game \<Rightarrow> cell \<Rightarrow> cell \<Rightarrow> bool option" where
  "move_blocked s origin destination =
     (let opponent = (if first_player_turn s then 2 else 1) in
      if position s opponent = Some destination then Some True
      else if fst origin = fst destination then
        (if snd destination < snd origin then
           do { f \<leftarrow> board_get s 2 (fst origin) (snd origin); Some (f \<noteq> 0) }
         else
           do { f \<leftarrow> board_get s 2 (fst origin) (snd origin + 1); Some (f \<noteq> 0) })
      else
        (if fst destination < fst origin then
           do { f \<leftarrow> board_get s 1 (fst origin) (snd origin); Some (f \<noteq> 0) }
         else
           do { f \<leftarrow> board_get s 1 (fst origin + 1) (snd origin); Some (f \<noteq> 0) }))"

subsection \<open>Jumps\<close>

text \<open>
  In the three jump functions the opponent is chosen by the turn flag, not by \<open>player\<close>.
  \<open>a and b\<close> reads \<open>b\<close> only when \<open>a\<close> holds, so a board read sits under the test that
  precedes it.
\<close>

definition is_legal_diagonal_from_column :: "game \<Rightarrow> int \<Rightarrow> cell \<Rightarrow> bool option" where
  "is_legal_diagonal_from_column s player target =
     (let opponent = (if first_player_turn s then 2 else 1) in
      do { play \<leftarrow> position s player;
           opp \<leftarrow> position s opponent;
           let play_x = fst play; play_y = snd play; opp_x = fst opp; opp_y = snd opp in
           if opp_x = play_x then
             do { above \<leftarrow> (if opp_y = snd target \<and> snd target = play_y + 1
                            then do { f \<leftarrow> board_get s 2 opp_x opp_y; Some (f \<noteq> 0) }
                            else Some False);
                  if above then
                    (if fst target = opp_x + 1 then
                       do { f \<leftarrow> board_get s 1 (opp_x + 1) opp_y; Some (f = 0) }
                     else if fst target = opp_x - 1 then
                       do { f \<leftarrow> board_get s 1 opp_x opp_y; Some (f = 0) }
                     else Some False)
                  else
                    do { below \<leftarrow> (if opp_y = snd target \<and> snd target = play_y - 1
                                   then do { f \<leftarrow> board_get s 2 opp_x (opp_y + 1); Some (f \<noteq> 0) }
                                   else Some False);
                         if below then
                           (if fst target = opp_x + 1 then
                              do { f \<leftarrow> board_get s 1 (opp_x + 1) opp_y; Some (f = 0) }
                            else if fst target = opp_x - 1 then
                              do { f \<leftarrow> board_get s 1 opp_x opp_y; Some (f = 0) }
                            else Some False)
                         else Some False } }
           else Some False })"

definition is_legal_diagonal_from_row :: "game \<Rightarrow> int \<Rightarrow> cell \<Rightarrow> bool option" where
  "is_legal_diagonal_from_row s player target =
     (let opponent = (if first_player_turn s then 2 else 1) in
      do { play \<leftarrow> position s player;
           opp \<leftarrow> position s opponent;
           let play_x = fst play; play_y = snd play; opp_x = fst opp; opp_y = snd opp in
           if opp_y = play_y then
             do { right \<leftarrow> (if opp_x = fst target \<and> fst target = play_x + 1
                            then do { f \<leftarrow> board_get s 1 (opp_x + 1) opp_y; Some (f \<noteq> 0) }
                            else Some False);
                  if right then
                    (if snd target = opp_y + 1 then
                       do { f \<leftarrow> board_get s 2 opp_x opp_y; Some (f = 0) }
                     else if snd target = opp_y - 1 then
                       do { f \<leftarrow> board_get s 2 opp_x (opp_y + 1); Some (f = 0) }
                     else Some False)
                  else
                    do { left \<leftarrow> (if opp_x = fst target \<and> fst target = play_x - 1
                                  then do { f \<leftarrow> board_get s 1 opp_x opp_y; Some (f \<noteq> 0) }
                                  else Some False);
                         if left then
                           (if snd target = opp_y + 1 then
                              do { f \<leftarrow> board_get s 2 opp_x opp_y; Some (f = 0) }
                            else if snd target = opp_y - 1 then
                              do { f \<leftarrow> board_get s 2 opp_x (opp_y + 1); Some (f = 0) }
                            else Some False)
                         else Some False } }
           else Some False })"

definition is_legal_diagonal :: "game \<Rightarrow> int \<Rightarrow> cell \<Rightarrow> bool option" where
  "is_legal_diagonal s player target =
     do { c \<leftarrow> is_legal_diagonal_from_column s player target;
          if c then Some True else is_legal_diagonal_from_row s player target }"

text \<open>
  \<open>_is_legal_jump\<close> has no \<open>return\<close> after a straight jump that fails its fence test: it
  returns the Python \<open>None\<close>, which its only caller tests with \<open>not\<close>. That falsy result
  is \<open>Some False\<close> here.
\<close>

definition is_legal_jump :: "game \<Rightarrow> int \<Rightarrow> cell \<Rightarrow> bool option" where
  "is_legal_jump s player target =
     (let opponent = (if first_player_turn s then 2 else 1) in
      do { play \<leftarrow> position s player;
           opp \<leftarrow> position s opponent;
           let play_x = fst play; play_y = snd play; opp_x = fst opp; opp_y = snd opp in
           if play_x = fst target \<and> fst target = opp_x then
             (if snd target = play_y + 2 \<and> opp_y = play_y + 1 then
                do { f \<leftarrow> board_get s 2 (fst target) (snd target);
                     if f = 0 then
                       do { g \<leftarrow> board_get s 2 (fst target) (snd target - 1); Some (g = 0) }
                     else Some False }
              else if snd target = play_y - 2 \<and> opp_y = play_y - 1 then
                do { f \<leftarrow> board_get s 2 (fst target) (snd target + 1);
                     if f = 0 then
                       do { g \<leftarrow> board_get s 2 (fst target) (snd target + 2); Some (g = 0) }
                     else Some False }
              else Some False)
           else if play_y = snd target \<and> snd target = opp_y then
             (if fst target = play_x + 2 \<and> opp_x = play_x + 1 then
                do { f \<leftarrow> board_get s 1 (fst target) (snd target);
                     if f = 0 then
                       do { g \<leftarrow> board_get s 1 (fst target) (snd target - 1); Some (g = 0) }
                     else Some False }
              else if fst target = play_x - 2 \<and> opp_x = play_x - 1 then
                do { f \<leftarrow> board_get s 1 (fst target) (snd target + 1);
                     if f = 0 then
                       do { g \<leftarrow> board_get s 1 (fst target) (snd target + 2); Some (g = 0) }
                     else Some False }
              else Some False)
           else is_legal_diagonal s player target })"

subsection \<open>\<open>_is_legal_move\<close> and \<open>move_pawn\<close>\<close>

text \<open>
  \<open>_move_blocked\<close> is reached only after \<open>_is_adjacent\<close> has subscripted
  \<open>self._position(player)\<close>, so its origin is a cell there.
\<close>

definition is_legal_move :: "game \<Rightarrow> int \<Rightarrow> cell \<Rightarrow> bool option" where
  "is_legal_move s player destination =
     (if \<not> (0 \<le> fst destination \<and> fst destination \<le> 8)
         \<or> \<not> (0 \<le> snd destination \<and> snd destination \<le> 8) then Some False
      else
        let opponent = (if player = 1 then 2 else 1) in
        do { adj \<leftarrow> is_adjacent (position s player) (position s opponent);
             jump \<leftarrow> (if adj then
                        do { near \<leftarrow> is_adjacent (position s player) (Some destination);
                             Some (\<not> near) }
                      else Some False);
             if jump then is_legal_jump s player destination
             else
               do { near \<leftarrow> is_adjacent (position s player) (Some destination);
                    if \<not> near then Some False
                    else
                      do { origin \<leftarrow> position s player;
                           blocked \<leftarrow> move_blocked s origin destination;
                           if blocked then Some False else Some True } } })"

definition move_pawn :: "game \<Rightarrow> int \<Rightarrow> cell \<Rightarrow> (bool \<times> game) option" where
  "move_pawn s player destination =
     do { may \<leftarrow> player_may_move s player;
          if \<not> may then Some (False, s)
          else
            do { legal \<leftarrow> is_legal_move s player destination;
                 if \<not> legal then Some (False, s)
                 else
                   do { let s1 = s\<lparr>first_player_turn := \<not> first_player_turn s\<rparr>;
                        p \<leftarrow> position s1 player;
                        s2 \<leftarrow> board_set s1 0 (fst p) (snd p) 0;
                        s3 \<leftarrow> board_set s2 0 (fst destination) (snd destination) player;
                        Some (True, s3) } } }"

subsection \<open>The fair-play search\<close>

text \<open>
  The body of the inner loop of \<open>_rec_is_valid_path\<close> over
  \<open>new_list = [up_space, down_space, left_space, right_space]\<close>: a neighbour inside the
  board, not blocked and not yet listed is appended and counted.
\<close>

fun add_spaces :: "game \<Rightarrow> cell \<Rightarrow> cell list \<Rightarrow> cell list \<Rightarrow> nat \<Rightarrow> (cell list \<times> nat) option" where
  "add_spaces s space [] space_list add_counter = Some (space_list, add_counter)"
| "add_spaces s space (new_space # rest) space_list add_counter =
     (if 0 \<le> fst new_space \<and> fst new_space \<le> 8 \<and> 0 \<le> snd new_space \<and> snd new_space \<le> 8 then
        do { blocked \<leftarrow> move_blocked s space new_space;
             if \<not> blocked \<and> new_space \<notin> set space_list
             then add_spaces s space rest (space_list @ [new_space]) (add_counter + 1)
             else add_spaces s space rest space_list add_counter }
      else add_spaces s space rest space_list add_counter)"

definition new_list :: "cell \<Rightarrow> cell list" where
  "new_list space =
     [(fst space, snd space + 1), (fst space, snd space - 1),
      (fst space - 1, snd space), (fst space + 1, snd space)]"

definition board_cells :: "cell set" where
  "board_cells = {0..8} \<times> {0..8}"

text \<open>
  \<open>for space in space_list\<close>: the list iterator holds an index and compares it with the
  current length at every step, so the cells appended by the body are visited by the same
  loop. \<open>Found\<close> is the \<open>return True\<close> inside the loop, \<open>Exhausted\<close> the end of the loop
  with the counter it leaves. The loop appends to the caller's list in place, so both
  carry the list as the loop leaves it.
\<close>

datatype scan_result = Found "cell list" | Exhausted "cell list" nat

function scan_spaces :: "game \<Rightarrow> int \<Rightarrow> cell list \<Rightarrow> nat \<Rightarrow> nat \<Rightarrow> scan_result option" where
  "scan_spaces s end_row space_list i add_counter =
     (if i < length space_list then
        (if snd (space_list ! i) = end_row then Some (Found space_list)
         else
           (case add_spaces s (space_list ! i) (new_list (space_list ! i)) space_list add_counter of
              None \<Rightarrow> None
            | Some (space_list', add_counter') \<Rightarrow>
                scan_spaces s end_row space_list' (Suc i) add_counter'))
      else Some (Exhausted space_list add_counter))"
  by pat_completeness auto

text \<open>
  What one pass of the inner loop appends: cells of the board, new to the list and
  pairwise different, as many as it counts.
\<close>

lemma add_spaces_result:
  "add_spaces s space nl sl c = Some (sl', c') \<Longrightarrow>
   \<exists>new. sl' = sl @ new \<and> c' = c + length new \<and> distinct new \<and> set new \<subseteq> (board_cells \<inter> set nl) - set sl"
proof (induction nl arbitrary: sl c)
  case Nil
  then show ?case by simp
next
  case (Cons a nl)
  show ?case
  proof (cases "0 \<le> fst a \<and> fst a \<le> 8 \<and> 0 \<le> snd a \<and> snd a \<le> 8")
    case False
    with Cons.prems have "add_spaces s space nl sl c = Some (sl', c')" by auto
    from Cons.IH[OF this] show ?thesis by auto
  next
    case inb: True
    then obtain b where b: "move_blocked s space a = Some b"
      using Cons.prems by (cases "move_blocked s space a") auto
    show ?thesis
    proof (cases "\<not> b \<and> a \<notin> set sl")
      case True
      with inb b Cons.prems have "add_spaces s space nl (sl @ [a]) (c + 1) = Some (sl', c')" by simp
      from Cons.IH[OF this] obtain new where
        n: "sl' = (sl @ [a]) @ new" "c' = c + 1 + length new" "distinct new"
           "set new \<subseteq> (board_cells \<inter> set nl) - set (sl @ [a])" by auto
      have "a \<in> board_cells" using inb by (cases a) (simp add: board_cells_def)
      with n True show ?thesis
        by (intro exI[of _ "a # new"]) auto
    next
      case False
      with inb b Cons.prems have "add_spaces s space nl sl c = Some (sl', c')" by auto
      from Cons.IH[OF this] show ?thesis by auto
    qed
  qed
qed


lemma finite_board_cells: "finite board_cells"
  by (simp add: board_cells_def)

lemma card_missing_append:
  assumes "distinct new" "set new \<subseteq> board_cells - set sl"
  shows "card (board_cells - set (sl @ new)) + length new = card (board_cells - set sl)"
proof -
  have "board_cells - set (sl @ new) = (board_cells - set sl) - set new" by auto
  moreover have "card ((board_cells - set sl) - set new) = card (board_cells - set sl) - card (set new)"
    using assms(2) by (intro card_Diff_subset) auto
  moreover have "card (set new) = length new" using assms(1) by (rule distinct_card)
  moreover have "card (set new) \<le> card (board_cells - set sl)"
    using assms(2) finite_board_cells by (intro card_mono) auto
  ultimately show ?thesis by simp
qed

termination scan_spaces
proof (relation "measure (\<lambda>(s, end_row, space_list, i, add_counter).
                   2 * card (board_cells - set space_list) + (length space_list - i))")
  show "wf (measure (\<lambda>(s, end_row, space_list, i, add_counter).
                   2 * card (board_cells - set space_list) + (length space_list - i)))"
    by simp
next
  fix s :: game and end_row :: int and space_list :: "cell list" and i add_counter :: nat
    and x2 :: "cell list \<times> nat" and x y
  assume i: "i < length space_list"
    and a: "add_spaces s (space_list ! i) (new_list (space_list ! i)) space_list add_counter = Some x2"
    and x2: "(x, y) = x2"
  from a x2 have "add_spaces s (space_list ! i) (new_list (space_list ! i)) space_list add_counter = Some (x, y)"
    by simp
  from add_spaces_result[OF this] obtain new where
    n: "x = space_list @ new" "distinct new" "set new \<subseteq> board_cells - set space_list" by auto
  from card_missing_append[OF n(2,3)] i n(1)
  show "((s, end_row, x, Suc i, y), (s, end_row, space_list, i, add_counter))
        \<in> measure (\<lambda>(s, end_row, space_list, i, add_counter).
                   2 * card (board_cells - set space_list) + (length space_list - i))"
    by simp
qed


lemma scan_spaces_result:
  "scan_spaces s end_row sl i c = Some (Exhausted sl' c') \<Longrightarrow>
   \<exists>new. sl' = sl @ new \<and> c' = c + length new \<and> distinct new \<and> set new \<subseteq> board_cells - set sl"
proof (induction s end_row sl i c rule: scan_spaces.induct)
  case (1 s end_row space_list i add_counter)
  show ?case
  proof (cases "i < length space_list")
    case False
    with "1.prems" show ?thesis by simp
  next
    case True
    with "1.prems" have ne: "snd (space_list ! i) \<noteq> end_row"
      by (auto split: if_splits)
    with True "1.prems" obtain l2 c2 where
      a: "add_spaces s (space_list ! i) (new_list (space_list ! i)) space_list add_counter = Some (l2, c2)"
      and r: "scan_spaces s end_row l2 (Suc i) c2 = Some (Exhausted sl' c')"
      by (auto split: option.splits)
    from add_spaces_result[OF a] obtain n1 where
      n1: "l2 = space_list @ n1" "c2 = add_counter + length n1" "distinct n1"
          "set n1 \<subseteq> board_cells - set space_list" by auto
    from "1.IH"[OF True ne a refl r] obtain n2 where
      n2: "sl' = l2 @ n2" "c' = c2 + length n2" "distinct n2" "set n2 \<subseteq> board_cells - set l2"
      by auto
    from n1 n2 show ?thesis
      by (intro exI[of _ "n1 @ n2"]) auto
  qed
qed

text \<open>
  \<open>_rec_is_valid_path\<close>: one \<open>for\<close> loop, then \<open>False\<close> when it added nothing and the
  recursive call on the same, grown list otherwise. The result is paired with the list
  as the search leaves it.
\<close>

function rec_is_valid_path :: "game \<Rightarrow> cell list \<Rightarrow> int \<Rightarrow> (bool \<times> cell list) option" where
  "rec_is_valid_path s space_list end_row =
     (case scan_spaces s end_row space_list 0 0 of
        None \<Rightarrow> None
      | Some (Found space_list') \<Rightarrow> Some (True, space_list')
      | Some (Exhausted space_list' add_counter) \<Rightarrow>
          if add_counter = 0 then Some (False, space_list')
          else rec_is_valid_path s space_list' end_row)"
  by pat_completeness auto

termination rec_is_valid_path
proof (relation "measure (\<lambda>(s, space_list, end_row). card (board_cells - set space_list))")
  show "wf (measure (\<lambda>(s, space_list, end_row). card (board_cells - set space_list)))"
    by simp
next
  fix s :: game and space_list :: "cell list" and end_row :: int
    and x2 :: scan_result and x21 :: "cell list" and x22 :: nat
  assume a: "scan_spaces s end_row space_list 0 0 = Some x2" and x2: "x2 = Exhausted x21 x22"
    and ne: "x22 \<noteq> 0"
  from a x2 have "scan_spaces s end_row space_list 0 0 = Some (Exhausted x21 x22)" by simp
  from scan_spaces_result[OF this] obtain new where
    n: "x21 = space_list @ new" "x22 = length new" "distinct new"
       "set new \<subseteq> board_cells - set space_list" by auto
  from n(2) ne have "0 < length new" by simp
  with card_missing_append[OF n(3,4)]
  have "card (board_cells - set (space_list @ new)) < card (board_cells - set space_list)"
    by linarith
  with n(1)
  show "((s, x21, end_row), (s, space_list, end_row))
        \<in> measure (\<lambda>(s, space_list, end_row). card (board_cells - set space_list))"
    by simp
qed

declare scan_spaces.simps [simp del] rec_is_valid_path.simps [simp del]

subsection \<open>\<open>_is_valid_path\<close> and \<open>place_fence\<close>\<close>

definition is_valid_path :: "game \<Rightarrow> int \<Rightarrow> int \<Rightarrow> cell \<Rightarrow> (bool \<times> game) option" where
  "is_valid_path s player fence_index coords =
     (let opponent = (if player = 1 then 2 else 1);
          win_row = (if player = 1 then 0 else 8) in
      do { s1 \<leftarrow> board_set s fence_index (fst coords) (snd coords) 1;
           start \<leftarrow> position s1 opponent;
           result \<leftarrow> rec_is_valid_path s1 [start] win_row;
           s2 \<leftarrow> board_set s1 fence_index (fst coords) (snd coords) 0;
           Some (fst result, s2) })"

text \<open>
  \<open>place_fence\<close> returns \<open>True\<close>, \<open>False\<close> or the string
  \<open>'breaks the fair play rule'\<close>; \<open>truthy\<close> is Python's truth value of such a result.
\<close>

datatype py_result = PyBool bool | PyStr string

fun truthy :: "py_result \<Rightarrow> bool" where
  "truthy (PyBool b) = b"
| "truthy (PyStr t) = (t \<noteq> [])"

definition place_fence :: "game \<Rightarrow> int \<Rightarrow> string \<Rightarrow> cell \<Rightarrow> (py_result \<times> game) option" where
  "place_fence s player orientation coords =
     do { may \<leftarrow> player_may_move s player;
          if \<not> may then Some (PyBool False, s)
          else if player = 1 \<and> player_one_fences s = 0 then Some (PyBool False, s)
          else if player = 2 \<and> player_two_fences s = 0 then Some (PyBool False, s)
          else if orientation \<noteq> ''v'' \<and> orientation \<noteq> ''h'' then Some (PyBool False, s)
          else
            let fence_index = (if orientation = ''v'' then 1 else 2) in
            if fence_index = 1 \<and> (\<not> (1 \<le> fst coords \<and> fst coords \<le> 8)
                                   \<or> \<not> (0 \<le> snd coords \<and> snd coords \<le> 8))
            then Some (PyBool False, s)
            else if fence_index = 2 \<and> (\<not> (0 \<le> fst coords \<and> fst coords \<le> 8)
                                        \<or> \<not> (1 \<le> snd coords \<and> snd coords \<le> 8))
            then Some (PyBool False, s)
            else
              do { f \<leftarrow> board_get s fence_index (fst coords) (snd coords);
                   if f = 1 then Some (PyBool False, s)
                   else
                     do { r \<leftarrow> is_valid_path s player fence_index coords;
                          if \<not> fst r then Some (PyStr ''breaks the fair play rule'', snd r)
                          else
                            do { s1 \<leftarrow> board_set (snd r) fence_index (fst coords) (snd coords) 1;
                                 let s2 = (if player = 1
                                           then s1\<lparr>player_one_fences := player_one_fences s1 - 1\<rparr>
                                           else if player = 2
                                           then s1\<lparr>player_two_fences := player_two_fences s1 - 1\<rparr>
                                           else s1);
                                 Some (PyBool True,
                                       s2\<lparr>first_player_turn := \<not> first_player_turn s2\<rparr>) } } } }"

subsection \<open>Sequences of calls\<close>

text \<open>
  A call of one of the two public methods, and a run of calls on one game: the results in
  order and the game they leave. \<open>move_pawn\<close>'s boolean is wrapped as \<open>PyBool\<close>.
\<close>

datatype call = Move_pawn int cell | Place_fence int string cell

fun do_call :: "game \<Rightarrow> call \<Rightarrow> (py_result \<times> game) option" where
  "do_call s (Move_pawn player destination) =
     do { r \<leftarrow> move_pawn s player destination; Some (PyBool (fst r), snd r) }"
| "do_call s (Place_fence player orientation coords) = place_fence s player orientation coords"

fun run :: "game \<Rightarrow> call list \<Rightarrow> (py_result list \<times> game) option" where
  "run s [] = Some ([], s)"
| "run s (c # cs) =
     do { r \<leftarrow> do_call s c;
          rest \<leftarrow> run (snd r) cs;
          Some (fst r # fst rest, snd rest) }"

section \<open>The shape of the board\<close>

text \<open>
  \<open>__init__\<close> builds three arrays of nine columns of nine rows, and no method changes
  the length of a list: \<open>shape\<close> is that invariant. \<open>in_board\<close> is the test
  \<open>0 <= c[0] <= 8 and 0 <= c[1] <= 8\<close>, and \<open>put\<close> the game with one cell of one array
  replaced, which is what an assignment inside the board does.
\<close>

definition shape :: "game \<Rightarrow> bool" where
  "shape s =
     (length (board s) = 3 \<and>
      list_all (\<lambda>arr. length arr = 9 \<and> list_all (\<lambda>col. length col = 9) arr) (board s))"

definition in_board :: "cell \<Rightarrow> bool" where
  "in_board c = (0 \<le> fst c \<and> fst c \<le> 8 \<and> 0 \<le> snd c \<and> snd c \<le> 8)"

lemma py_index_nat: "0 \<le> i \<Longrightarrow> i < int (length xs) \<Longrightarrow> py_index xs i = Some (xs ! nat i)"
  by (simp add: py_index_def)

lemma py_store_nat: "0 \<le> i \<Longrightarrow> i < int (length xs) \<Longrightarrow> py_store xs i v = Some (xs[nat i := v])"
  by (simp add: py_store_def)

lemma shape_lengths:
  assumes "shape s" "a < 3" "x < 9"
  shows "length (board s) = 3" "length (board s ! a) = 9" "length (board s ! a ! x) = 9"
proof -
  from assms(1) show l: "length (board s) = 3" by (simp add: shape_def)
  from assms(1) have all: "\<forall>arr \<in> set (board s). length arr = 9 \<and> (\<forall>col \<in> set arr. length col = 9)"
    by (simp add: shape_def list_all_iff)
  from l assms(2) have m: "board s ! a \<in> set (board s)" by simp
  with all show l2: "length (board s ! a) = 9" by blast
  with assms(3) have "board s ! a ! x \<in> set (board s ! a)" by simp
  with all m show "length (board s ! a ! x) = 9" by blast
qed

lemma board_get_nth:
  assumes "shape s" "0 \<le> a" "a \<le> 2" "0 \<le> x" "x \<le> 8" "0 \<le> y" "y \<le> 8"
  shows "board_get s a x y = Some (board s ! nat a ! nat x ! nat y)"
proof -
  have a: "nat a < 3" and x: "nat x < 9" using assms by auto
  note ls = shape_lengths[OF assms(1) a x]
  show ?thesis
    using assms(2-) ls by (simp add: board_get_def py_index_nat)
qed

definition put :: "game \<Rightarrow> nat \<Rightarrow> nat \<Rightarrow> nat \<Rightarrow> int \<Rightarrow> game" where
  "put s a x y v = s\<lparr>board := (board s)[a := (board s ! a)[x := (board s ! a ! x)[y := v]]]\<rparr>"

lemma board_set_put:
  assumes "shape s" "0 \<le> a" "a \<le> 2" "0 \<le> x" "x \<le> 8" "0 \<le> y" "y \<le> 8"
  shows "board_set s a x y v = Some (put s (nat a) (nat x) (nat y) v)"
proof -
  have a: "nat a < 3" and x: "nat x < 9" using assms by auto
  note ls = shape_lengths[OF assms(1) a x]
  show ?thesis
    using assms(2-) ls by (simp add: board_set_def put_def py_index_nat py_store_nat)
qed

lemma shape_iff:
  "shape s \<longleftrightarrow>
     length (board s) = 3 \<and>
     (\<forall>a<3. length (board s ! a) = 9 \<and> (\<forall>x<9. length (board s ! a ! x) = 9))"
  by (auto simp: shape_def list_all_length)

lemma board_put [simp]:
  "board (put s a x y v) = (board s)[a := (board s ! a)[x := (board s ! a ! x)[y := v]]]"
  by (simp add: put_def)

lemma put_fields [simp]:
  "player_one_fences (put s a x y v) = player_one_fences s"
  "player_two_fences (put s a x y v) = player_two_fences s"
  "first_player_turn (put s a x y v) = first_player_turn s"
  by (simp_all add: put_def)

lemma shape_put:
  assumes "shape s"
  shows "shape (put s a x y v)"
proof -
  let ?col = "(board s ! a ! x)[y := v]"
  let ?arr = "(board s ! a)[x := ?col]"
  have len: "length (board s) = 3"
    and arr: "\<And>a. a < 3 \<Longrightarrow> length (board s ! a) = 9"
    and col: "\<And>a x. a < 3 \<Longrightarrow> x < 9 \<Longrightarrow> length (board s ! a ! x) = 9"
    using assms by (auto simp: shape_iff)
  have "length (((board s)[a := ?arr]) ! a') = 9
        \<and> (\<forall>x'<9. length (((board s)[a := ?arr]) ! a' ! x') = 9)" if a': "a' < 3" for a'
  proof (cases "a' = a")
    case False
    then show ?thesis using a' arr col by simp
  next
    case True
    have "length (?arr ! x') = 9" if "x' < 9" for x'
      using that True a' arr col by (cases "x' = x") simp_all
    then show ?thesis using True a' len arr by simp
  qed
  then show ?thesis using len by (simp add: shape_iff)
qed

lemma put_nth:
  assumes "shape s" "a < 3" "x < 9" "y < 9" "a' < 3" "x' < 9" "y' < 9"
  shows "board (put s a x y v) ! a' ! x' ! y' =
           (if a' = a \<and> x' = x \<and> y' = y then v else board s ! a' ! x' ! y')"
  using assms by (auto simp: shape_iff nth_list_update)

lemma put_put_same:
  assumes "shape s" "a < 3" "x < 9" "y < 9"
  shows "put (put s a x y v) a x y w = put s a x y w"
  using assms by (simp add: put_def shape_iff)

lemma put_same:
  assumes "board s ! a ! x ! y = v"
  shows "put s a x y v = s"
proof -
  from assms have "(board s ! a ! x)[y := v] = board s ! a ! x" by auto
  then have "(board s)[a := (board s ! a)[x := (board s ! a ! x)[y := v]]] = board s" by simp
  then show ?thesis by (simp add: put_def)
qed

lemma board_get_put:
  assumes "shape s" "a < 3" "x < 9" "y < 9"
    and "0 \<le> a'" "a' \<le> 2" "0 \<le> x'" "x' \<le> 8" "0 \<le> y'" "y' \<le> 8"
  shows "board_get (put s a x y v) a' x' y' =
           (if nat a' = a \<and> nat x' = x \<and> nat y' = y then Some v else board_get s a' x' y')"
proof -
  have n: "nat a' < 3" "nat x' < 9" "nat y' < 9" using assms by auto
  show ?thesis
    using board_get_nth[OF shape_put[OF assms(1)] assms(5-)]
      board_get_nth[OF assms(1) assms(5-)]
      put_nth[OF assms(1-4) n]
    by simp
qed

lemma position_board0: "board s' ! 0 = board s ! 0 \<Longrightarrow> position s' p = position s p"
  by (simp add: position_def)

lemma board0_put: "shape s \<Longrightarrow> 0 < a \<Longrightarrow> board (put s a x y v) ! 0 = board s ! 0"
  by (simp add: shape_iff)

lemma position_put: "shape s \<Longrightarrow> 0 < a \<Longrightarrow> position (put s a x y v) p = position s p"
  by (rule position_board0) (rule board0_put)

section \<open>Diagonal jumps\<close>

text \<open>
  Two games played from the start. In both Player 1 stands on (4,3), Player 2 on (4,4)
  and Player 1 is to move. In the first the horizontal fence (4,5) lies behind Player 2
  (between rows 4 and 5 of column 4); in the second the horizontal fence (4,4) lies
  between the two pawns.
\<close>

definition behind_fence_calls :: "call list" where
  "behind_fence_calls =
     [Move_pawn 1 (4,1), Move_pawn 2 (4,7), Move_pawn 1 (4,2), Move_pawn 2 (4,6),
      Move_pawn 1 (4,3), Move_pawn 2 (4,5), Place_fence 1 ''h'' (0,1), Move_pawn 2 (4,4),
      Place_fence 1 ''h'' (4,5), Place_fence 2 ''v'' (1,0)]"

definition between_fence_calls :: "call list" where
  "between_fence_calls =
     [Move_pawn 1 (4,1), Move_pawn 2 (4,7), Move_pawn 1 (4,2), Move_pawn 2 (4,6),
      Move_pawn 1 (4,3), Move_pawn 2 (4,5), Place_fence 1 ''h'' (0,1), Move_pawn 2 (4,4),
      Place_fence 1 ''h'' (4,4), Place_fence 2 ''v'' (1,0)]"

text \<open>
  C1. The claim: with the pawns adjacent, a diagonal jump is legal exactly when the edge
  from the acting pawn to the opponent is open, the edge behind the opponent is fenced and
  the edge from the opponent to the destination is open. In the first game all three hold
  for the destinations (5,4) and (3,4), and \<open>move_pawn\<close> refuses both: for pawns in one
  column \<open>_is_legal_diagonal_from_column\<close> reads the horizontal fence at the opponent's
  own anchor, which is the edge between the two pawns, where the edge behind the opponent
  is meant.
\<close>

theorem diagonal_jump_behind_fence_refused:
  "(case run init_game behind_fence_calls of
      None \<Rightarrow> False
    | Some (rs, s) \<Rightarrow>
        rs = replicate 10 (PyBool True) \<and>
        first_player_turn s \<and> position s 1 = Some (4,3) \<and> position s 2 = Some (4,4) \<and>
        board_get s 2 4 4 = Some 0 \<and> board_get s 2 4 5 = Some 1 \<and>
        board_get s 1 5 4 = Some 0 \<and> board_get s 1 4 4 = Some 0 \<and>
        is_legal_diagonal s 1 (5,4) = Some False \<and>
        is_legal_diagonal s 1 (3,4) = Some False \<and>
        move_pawn s 1 (5,4) = Some (False, s) \<and>
        move_pawn s 1 (3,4) = Some (False, s))"
  by code_simp

text \<open>
  The converse fails as well: in the second game the edge between the pawns is fenced and
  the edge behind the opponent is open, and both diagonal jumps are accepted.
\<close>

lemma diagonal_jump_across_fence_accepted:
  "(case run init_game between_fence_calls of
      None \<Rightarrow> False
    | Some (rs, s) \<Rightarrow>
        rs = replicate 10 (PyBool True) \<and>
        first_player_turn s \<and> position s 1 = Some (4,3) \<and> position s 2 = Some (4,4) \<and>
        board_get s 2 4 4 = Some 1 \<and> board_get s 2 4 5 = Some 0 \<and>
        board_get s 1 5 4 = Some 0 \<and> board_get s 1 4 4 = Some 0 \<and>
        map_option fst (move_pawn s 1 (5,4)) = Some True \<and>
        map_option fst (move_pawn s 1 (3,4)) = Some True)"
  by code_simp

text \<open>
  For pawns in one row the side fence is read on the wrong side. Player 1 stands on
  (3,4), Player 2 on (4,4); the vertical fence (5,4) lies behind Player 2 and the
  horizontal fence (4,5) between (4,4) and (4,5). The jump to (4,5), across that fence,
  is accepted, and the jump to (4,3), across an open edge, is refused.
\<close>

definition row_jump_calls :: "call list" where
  "row_jump_calls =
     [Move_pawn 1 (3, 0), Move_pawn 2 (4, 7), Move_pawn 1 (3, 1), Move_pawn 2 (4, 6),
      Move_pawn 1 (3, 2), Move_pawn 2 (4, 5), Move_pawn 1 (3, 3), Move_pawn 2 (4, 4),
      Move_pawn 1 (3, 4), Place_fence 2 ''h'' (4, 5), Place_fence 1 ''v'' (5, 4),
      Place_fence 2 ''h'' (0, 1)]"

lemma diagonal_jump_row_wrong_side:
  "(case run init_game row_jump_calls of
      None \<Rightarrow> False
    | Some (rs, s) \<Rightarrow>
        rs = replicate 12 (PyBool True) \<and>
        first_player_turn s \<and> position s 1 = Some (3, 4) \<and> position s 2 = Some (4, 4) \<and>
        board_get s 1 4 4 = Some 0 \<and> board_get s 1 5 4 = Some 1 \<and>
        board_get s 2 4 5 = Some 1 \<and> board_get s 2 4 4 = Some 0 \<and>
        map_option fst (move_pawn s 1 (4, 5)) = Some True \<and>
        move_pawn s 1 (4, 3) = Some (False, s))"
  by code_simp

section \<open>What a fence blocks\<close>

text \<open>
  For the two steps across one edge \<open>_move_blocked\<close> reads one board cell: the vertical
  anchor (x,y) for the edge between (x-1,y) and (x,y), the horizontal anchor (x,y) for the
  edge between (x,y-1) and (x,y).
\<close>

lemma move_blocked_edges:
  fixes s :: game and x y :: int
  defines "opponent \<equiv> (if first_player_turn s then 2 else 1)"
  shows "(board_get s 1 x y = Some f \<longrightarrow>
            move_blocked s (x, y) (x - 1, y) = Some (position s opponent = Some (x - 1, y) \<or> f \<noteq> 0) \<and>
            move_blocked s (x - 1, y) (x, y) = Some (position s opponent = Some (x, y) \<or> f \<noteq> 0))
       \<and> (board_get s 2 x y = Some g \<longrightarrow>
            move_blocked s (x, y) (x, y - 1) = Some (position s opponent = Some (x, y - 1) \<or> g \<noteq> 0) \<and>
            move_blocked s (x, y - 1) (x, y) = Some (position s opponent = Some (x, y) \<or> g \<noteq> 0))"
  by (auto simp: move_blocked_def opponent_def)

text \<open>The one board cell that \<open>_move_blocked\<close> reads for a step between neighbours.\<close>

definition fence_read :: "cell \<Rightarrow> cell \<Rightarrow> int \<times> int \<times> int" where
  "fence_read origin destination =
     (if fst origin = fst destination
      then (2, fst origin, if snd destination < snd origin then snd origin else snd origin + 1)
      else (1, if fst destination < fst origin then fst origin else fst origin + 1, snd origin))"

lemma move_blocked_fence_read:
  "move_blocked s origin destination =
     (if position s (if first_player_turn s then 2 else 1) = Some destination then Some True
      else case fence_read origin destination of (a, x, y) \<Rightarrow>
        do { f \<leftarrow> board_get s a x y; Some (f \<noteq> 0) })"
  by (simp add: move_blocked_def fence_read_def)

lemma fence_read_range:
  assumes "in_board origin" "in_board destination" "destination \<in> set (new_list origin)"
    and "fence_read origin destination = (a, x, y)"
  shows "(a = 1 \<or> a = 2) \<and> 0 \<le> x \<and> x \<le> 8 \<and> 0 \<le> y \<and> y \<le> 8"
  using assms by (auto simp: in_board_def new_list_def fence_read_def split: if_splits)

lemma fence_read_vertical:
  assumes "destination \<in> set (new_list origin)"
  shows "fence_read origin destination = (1, x, y) \<longleftrightarrow> {origin, destination} = {(x - 1, y), (x, y)}"
  using assms by (cases origin; cases destination) (auto simp: new_list_def fence_read_def doubleton_eq_iff)

lemma fence_read_horizontal:
  assumes "destination \<in> set (new_list origin)"
  shows "fence_read origin destination = (2, x, y) \<longleftrightarrow> {origin, destination} = {(x, y - 1), (x, y)}"
  using assms by (cases origin; cases destination) (auto simp: new_list_def fence_read_def doubleton_eq_iff)

lemma move_blocked_put:
  assumes sh: "shape s" and io: "in_board origin" and id: "in_board destination"
    and adj: "destination \<in> set (new_list origin)"
    and a: "a = 1 \<or> a = 2" and x: "0 \<le> x" "x \<le> 8" and y: "0 \<le> y" "y \<le> 8"
  shows "move_blocked (put s (nat a) (nat x) (nat y) 1) origin destination =
           (if fence_read origin destination = (a, x, y) then Some True
            else move_blocked s origin destination)"
proof -
  obtain a' x' y' where fr: "fence_read origin destination = (a', x', y')"
    by (cases "fence_read origin destination") auto
  from fence_read_range[OF io id adj fr]
  have r: "0 \<le> a'" "a' \<le> 2" "0 \<le> x'" "x' \<le> 8" "0 \<le> y'" "y' \<le> 8" by auto
  have n: "nat a < 3" "nat x < 9" "nat y < 9" "0 < nat a" using a x y by auto
  have g: "board_get (put s (nat a) (nat x) (nat y) 1) a' x' y' =
             (if nat a' = nat a \<and> nat x' = nat x \<and> nat y' = nat y then Some 1 else board_get s a' x' y')"
    by (rule board_get_put[OF sh n(1-3) r])
  have e: "(nat a' = nat a \<and> nat x' = nat x \<and> nat y' = nat y) \<longleftrightarrow> (a', x', y') = (a, x, y)"
    using r a x y by auto
  show ?thesis
    unfolding move_blocked_fence_read fr
    using g e position_put[OF sh n(4)] by (auto simp: put_def)
qed

text \<open>
  \<open>_move_blocked\<close> is the test behind an ordinary step of a pawn and behind the search:
  a step to a neighbouring cell of the board is legal exactly when it is not blocked, and
  the search appends a neighbour exactly when the step to it is not blocked (and the
  neighbour is not yet listed).
\<close>

lemma ordinary_step_legal:
  assumes "position s player = Some origin" "in_board destination"
    and "destination \<in> set (new_list origin)"
  shows "is_legal_move s player destination
           = map_option Not (move_blocked s origin destination)"
proof -
  have ib: "\<not> (\<not> (0 \<le> fst destination \<and> fst destination \<le> 8)
         \<or> \<not> (0 \<le> snd destination \<and> snd destination \<le> 8))"
    using assms(2) by (simp add: in_board_def)
  have near: "is_adjacent (Some origin) (Some destination) = Some True"
    using assms(3) by (auto simp: is_adjacent_def new_list_def)
  obtain a where a: "is_adjacent (Some origin) (position s (if player = 1 then 2 else 1)) = Some a"
    by (simp add: is_adjacent_def del: set_simps)
  show ?thesis
    unfolding is_legal_move_def using ib assms(1) a near
    by (cases "move_blocked s origin destination"; cases a) (auto simp: Let_def simp del: set_simps)
qed

lemma search_adds_neighbour:
  assumes "in_board c"
  shows "add_spaces s space [c] space_list k =
           (case move_blocked s space c of
              None \<Rightarrow> None
            | Some b \<Rightarrow> Some (if \<not> b \<and> c \<notin> set space_list
                               then (space_list @ [c], k + 1) else (space_list, k)))"
  using assms by (cases "move_blocked s space c") (auto simp: in_board_def)

text \<open>
  C2, as amended. The claim gives every fence two cells. For ordinary steps and for the
  fair-play search, which both ask \<open>_move_blocked\<close>, a fence spans one cell: setting the
  vertical anchor (x,y) blocks the steps between (x-1,y) and (x,y) and changes no other
  step between neighbouring cells of the board; setting the horizontal anchor (x,y) blocks
  the steps between (x,y-1) and (x,y) and changes no other. An ordinary step of a pawn is
  legal exactly when \<open>_move_blocked\<close> says it is not blocked, and the search appends a
  neighbour exactly when \<open>_move_blocked\<close> says so. (The fence reads of the straight jump in
  \<open>_is_legal_jump\<close>, which does not ask \<open>_move_blocked\<close>, are no part of this statement;
  see \<open>left_jump_crosses_fences\<close>.)
\<close>

theorem fence_spans_one_cell:
  assumes "shape s" "in_board origin" "in_board destination"
    and "destination \<in> set (new_list origin)"
  shows "(1 \<le> x \<and> x \<le> 8 \<and> 0 \<le> y \<and> y \<le> 8 \<and> board_set s 1 x y 1 = Some s' \<longrightarrow>
            move_blocked s' origin destination =
              (if {origin, destination} = {(x - 1, y), (x, y)} then Some True
               else move_blocked s origin destination))
       \<and> (0 \<le> x \<and> x \<le> 8 \<and> 1 \<le> y \<and> y \<le> 8 \<and> board_set s 2 x y 1 = Some s' \<longrightarrow>
            move_blocked s' origin destination =
              (if {origin, destination} = {(x, y - 1), (x, y)} then Some True
               else move_blocked s origin destination))
       \<and> (position s player = Some origin \<longrightarrow>
            is_legal_move s player destination
              = map_option Not (move_blocked s origin destination))
       \<and> add_spaces s origin [destination] space_list k =
            (case move_blocked s origin destination of
               None \<Rightarrow> None
             | Some b \<Rightarrow> Some (if \<not> b \<and> destination \<notin> set space_list
                                then (space_list @ [destination], k + 1)
                                else (space_list, k)))"
proof (intro conjI impI)
  assume h: "1 \<le> x \<and> x \<le> 8 \<and> 0 \<le> y \<and> y \<le> 8 \<and> board_set s 1 x y 1 = Some s'"
  then have "s' = put s (nat 1) (nat x) (nat y) 1"
    using board_set_put[OF assms(1), of 1 x y 1] by simp
  then show "move_blocked s' origin destination =
              (if {origin, destination} = {(x - 1, y), (x, y)} then Some True
               else move_blocked s origin destination)"
    using move_blocked_put[OF assms, of 1 x y] h fence_read_vertical[OF assms(4), of x y] by simp
next
  assume h: "0 \<le> x \<and> x \<le> 8 \<and> 1 \<le> y \<and> y \<le> 8 \<and> board_set s 2 x y 1 = Some s'"
  then have "s' = put s (nat 2) (nat x) (nat y) 1"
    using board_set_put[OF assms(1), of 2 x y 1] by simp
  then show "move_blocked s' origin destination =
              (if {origin, destination} = {(x, y - 1), (x, y)} then Some True
               else move_blocked s origin destination)"
    using move_blocked_put[OF assms, of 2 x y] h fence_read_horizontal[OF assms(4), of x y] by simp
next
  assume "position s player = Some origin"
  then show "is_legal_move s player destination
              = map_option Not (move_blocked s origin destination)"
    using assms(3,4) by (rule ordinary_step_legal)
next
  show "add_spaces s origin [destination] space_list k =
            (case move_blocked s origin destination of
               None \<Rightarrow> None
             | Some b \<Rightarrow> Some (if \<not> b \<and> destination \<notin> set space_list
                                then (space_list @ [destination], k + 1)
                                else (space_list, k)))"
    using assms(3) by (rule search_adds_neighbour)
qed

text \<open>
  The game after \<open>place_fence(1, 'v', (1,1))\<close> and \<open>place_fence(2, 'h', (5,5))\<close> from the
  start.
\<close>

definition two_fences_game :: game where
  "two_fences_game =
     (put (put init_game 1 1 1 1) 2 5 5 1)\<lparr>player_one_fences := 9, player_two_fences := 9\<rparr>"

text \<open>
  At the start, with the vertical anchor (4,0) set: the step of Player 1 from (4,0) to
  (3,0) is blocked, and \<open>_is_legal_move\<close> refuses it.
\<close>

theorem fence_spans_one_cell_witness:
  "shape init_game \<and> in_board (4, 0) \<and> in_board (3, 0) \<and> (3, 0) \<in> set (new_list (4, 0)) \<and>
   board_set init_game 1 4 0 1 = Some (put init_game 1 4 0 1) \<and>
   shape (put init_game 1 4 0 1) \<and> position (put init_game 1 4 0 1) 1 = Some (4, 0) \<and>
   move_blocked (put init_game 1 4 0 1) (4, 0) (3, 0) = Some True \<and>
   is_legal_move (put init_game 1 4 0 1) 1 (3, 0) = Some False"
proof -
  have sh: "shape init_game" by code_simp
  have io: "in_board (4, 0)" and id: "in_board (3, 0)" by (simp_all add: in_board_def)
  have adj: "(3, 0) \<in> set (new_list (4, 0))" by (simp add: new_list_def)
  have bs: "board_set init_game 1 4 0 1 = Some (put init_game 1 4 0 1)" by code_simp
  have shg: "shape (put init_game 1 4 0 1)" using sh by (rule shape_put)
  have ps: "position (put init_game 1 4 0 1) 1 = Some (4, 0)" by code_simp
  from fence_spans_one_cell[OF sh io id adj, THEN conjunct1, of 4 0 "put init_game 1 4 0 1"] bs
  have mb: "move_blocked (put init_game 1 4 0 1) (4, 0) (3, 0) = Some True"
    by (simp add: insert_commute)
  from fence_spans_one_cell[OF shg io id adj, THEN conjunct2, THEN conjunct2, THEN conjunct1, of 1]
    ps mb
  have "is_legal_move (put init_game 1 4 0 1) 1 (3, 0) = Some False" by simp
  with sh io id adj bs shg ps mb show ?thesis by simp
qed

text \<open>
  The claim fails at the second cell: with the vertical fence (1,1) placed, the step from
  (1,0) to (0,0), on row y-1, is open; with the horizontal fence (5,5) placed, the step
  from (4,5) to (4,4), in column x-1, is open.
\<close>

theorem fence_second_cell_counterexample:
  "run init_game [Place_fence 1 ''v'' (1, 1), Place_fence 2 ''h'' (5, 5)]
     = Some ([PyBool True, PyBool True], two_fences_game)
   \<and> board_get two_fences_game 1 1 1 = Some 1
   \<and> move_blocked two_fences_game (1, 1) (0, 1) = Some True
   \<and> move_blocked two_fences_game (1, 0) (0, 0) = Some False
   \<and> board_get two_fences_game 2 5 5 = Some 1
   \<and> move_blocked two_fences_game (5, 5) (5, 4) = Some True
   \<and> move_blocked two_fences_game (4, 5) (4, 4) = Some False"
  by code_simp

text \<open>
  The straight jump along a row does not ask \<open>_move_blocked\<close>: \<open>_is_legal_jump\<close> reads
  \<open>_board[1][target[0]][target[1] + 1]\<close> and \<open>[target[1] + 2]\<close> (to the left) and
  \<open>_board[1][target[0]][target[1] - 1]\<close> (to the right), with the row index moved where
  the column index is meant. Here Player 1 on (5,3) jumps over Player 2 on (4,3) to (3,3)
  across the vertical fences (5,3) and (4,3), both on the row of the jump.
\<close>

definition left_jump_fence_calls :: "call list" where
  "left_jump_fence_calls =
     [Move_pawn 1 (5, 0), Move_pawn 2 (4, 7), Move_pawn 1 (5, 1), Move_pawn 2 (4, 6),
      Move_pawn 1 (5, 2), Move_pawn 2 (4, 5), Move_pawn 1 (5, 3), Move_pawn 2 (4, 4),
      Place_fence 1 ''v'' (4, 3), Move_pawn 2 (4, 3), Place_fence 1 ''v'' (5, 3),
      Place_fence 2 ''h'' (0, 1)]"

lemma left_jump_crosses_fences:
  "(case run init_game left_jump_fence_calls of
      None \<Rightarrow> False
    | Some (rs, s) \<Rightarrow>
        rs = replicate 12 (PyBool True) \<and> first_player_turn s \<and>
        position s 1 = Some (5, 3) \<and> position s 2 = Some (4, 3) \<and>
        board_get s 1 5 3 = Some 1 \<and> board_get s 1 4 3 = Some 1 \<and>
        move_blocked s (4, 3) (3, 3) = Some True \<and>
        map_option fst (move_pawn s 1 (3, 3)) = Some True)"
  by code_simp

section \<open>Helper facts about the search and \<open>place_fence\<close>\<close>

lemma board_set_Some:
  assumes "board_set s a x y v = Some s'"
  shows "\<exists>b. s' = s\<lparr>board := b\<rparr>"
  using assms by (auto simp: board_set_def split: bind_splits)

lemma position_turn [simp]: "position (s\<lparr>first_player_turn := b\<rparr>) p = position s p"
  by (simp add: position_def)

text \<open>
  The fence arrays hold only 0 and 1: \<open>__init__\<close> fills them with 0, and the only
  values ever assigned to them are 1 and 0.
\<close>

definition fences_binary :: "game \<Rightarrow> bool" where
  "fences_binary s =
     (list_all (list_all (\<lambda>v. v = 0 \<or> v = 1)) (board s ! 1) \<and>
      list_all (list_all (\<lambda>v. v = 0 \<or> v = 1)) (board s ! 2))"

lemma fences_binary_get:
  assumes "shape s" "fences_binary s" "a = 1 \<or> a = 2" "0 \<le> x" "x \<le> 8" "0 \<le> y" "y \<le> 8"
  shows "\<exists>f. board_get s a x y = Some f \<and> (f = 0 \<or> f = 1)"
proof -
  have r: "0 \<le> a" "a \<le> 2" using assms(3) by auto
  have n: "nat a < 3" "nat x < 9" "nat y < 9" using assms by auto
  note ls = shape_lengths[OF assms(1) n(1,2)]
  have "list_all (list_all (\<lambda>v. v = 0 \<or> v = 1)) (board s ! nat a)"
    using assms(2,3) by (auto simp: fences_binary_def)
  then have "board s ! nat a ! nat x ! nat y = 0 \<or> board s ! nat a ! nat x ! nat y = 1"
    using ls n by (simp add: list_all_length)
  then show ?thesis using board_get_nth[OF assms(1) r assms(4-)] by simp
qed

text \<open>
  Names for the steps of \<open>place_fence\<close>: the array index of an orientation, the
  budget test, the decrement, and \<open>place_fence\<close> rewritten with them.
\<close>

definition fence_index :: "string \<Rightarrow> int" where
  "fence_index orientation = (if orientation = ''v'' then 1 else 2)"

text \<open>The anchors \<open>place_fence\<close> accepts for an orientation.\<close>

definition anchor_ok :: "string \<Rightarrow> cell \<Rightarrow> bool" where
  "anchor_ok orientation coords =
     (if orientation = ''v''
      then 1 \<le> fst coords \<and> fst coords \<le> 8 \<and> 0 \<le> snd coords \<and> snd coords \<le> 8
      else orientation = ''h'' \<and>
           0 \<le> fst coords \<and> fst coords \<le> 8 \<and> 1 \<le> snd coords \<and> snd coords \<le> 8)"

definition budget_left :: "game \<Rightarrow> int \<Rightarrow> bool" where
  "budget_left s player =
     (if player = 1 then player_one_fences s \<noteq> 0
      else if player = 2 then player_two_fences s \<noteq> 0 else True)"

definition spend :: "game \<Rightarrow> int \<Rightarrow> game" where
  "spend s player =
     (if player = 1 then s\<lparr>player_one_fences := player_one_fences s - 1\<rparr>
      else if player = 2 then s\<lparr>player_two_fences := player_two_fences s - 1\<rparr>
      else s)"

lemma place_fence_unfold:
  "place_fence s player orientation coords =
     do { may \<leftarrow> player_may_move s player;
          if \<not> may \<or> \<not> budget_left s player \<or> \<not> anchor_ok orientation coords
          then Some (PyBool False, s)
          else
            do { f \<leftarrow> board_get s (fence_index orientation) (fst coords) (snd coords);
                 if f = 1 then Some (PyBool False, s)
                 else
                   do { r \<leftarrow> is_valid_path s player (fence_index orientation) coords;
                        if \<not> fst r then Some (PyStr ''breaks the fair play rule'', snd r)
                        else
                          do { s1 \<leftarrow> board_set (snd r) (fence_index orientation)
                                      (fst coords) (snd coords) 1;
                               Some (PyBool True,
                                     (spend s1 player)\<lparr>first_player_turn :=
                                        \<not> first_player_turn (spend s1 player)\<rparr>) } } } }"
  unfolding place_fence_def budget_left_def anchor_ok_def fence_index_def spend_def Let_def
  by (cases "player_may_move s player") (auto simp: Let_def)


text \<open>
  On a board of the right shape no read of the search is out of range, so the search
  returns.
\<close>

lemma in_board_cells: "in_board c \<longleftrightarrow> c \<in> board_cells"
  by (cases c) (auto simp: in_board_def board_cells_def)

lemma move_blocked_total:
  assumes "shape s" "in_board origin" "in_board destination"
    and "destination \<in> set (new_list origin)"
  shows "\<exists>b. move_blocked s origin destination = Some b"
proof -
  obtain a x y where fr: "fence_read origin destination = (a, x, y)"
    by (cases "fence_read origin destination") auto
  from fence_read_range[OF assms(2-4) fr]
  have r: "0 \<le> a" "a \<le> 2" "0 \<le> x" "x \<le> 8" "0 \<le> y" "y \<le> 8" by auto
  show ?thesis
    unfolding move_blocked_fence_read fr
    using board_get_nth[OF assms(1) r] by auto
qed

lemma add_spaces_total:
  assumes "shape s" "in_board space"
  shows "set nl \<subseteq> set (new_list space) \<Longrightarrow> \<exists>r. add_spaces s space nl sl c = Some r"
proof (induction nl arbitrary: sl c)
  case Nil
  then show ?case by simp
next
  case (Cons a nl)
  then have sub: "set nl \<subseteq> set (new_list space)" and a: "a \<in> set (new_list space)" by auto
  show ?case
  proof (cases "0 \<le> fst a \<and> fst a \<le> 8 \<and> 0 \<le> snd a \<and> snd a \<le> 8")
    case False
    then show ?thesis using Cons.IH[OF sub] by auto
  next
    case True
    then have "in_board a" by (simp add: in_board_def)
    from move_blocked_total[OF assms this a] obtain b where "move_blocked s space a = Some b" ..
    then show ?thesis using True Cons.IH[OF sub] by auto
  qed
qed

lemma scan_spaces_total:
  "shape s \<Longrightarrow> set sl \<subseteq> board_cells \<Longrightarrow> \<exists>r. scan_spaces s end_row sl i c = Some r"
proof (induction s end_row sl i c rule: scan_spaces.induct)
  case (1 s end_row space_list i add_counter)
  show ?case
  proof (cases "i < length space_list \<and> snd (space_list ! i) \<noteq> end_row")
    case False
    then show ?thesis by (auto simp: scan_spaces.simps[of s end_row space_list i add_counter])
  next
    case True
    then have "space_list ! i \<in> board_cells" using "1.prems" by auto
    then have ib: "in_board (space_list ! i)" by (simp add: in_board_cells)
    from add_spaces_total[OF "1.prems"(1) ib subset_refl, of space_list add_counter] obtain r0 where
      "add_spaces s (space_list ! i) (new_list (space_list ! i)) space_list add_counter = Some r0" ..
    then obtain l2 c2 where
      a: "add_spaces s (space_list ! i) (new_list (space_list ! i)) space_list add_counter = Some (l2, c2)"
      by (cases r0) blast
    from add_spaces_result[OF a] "1.prems" have "set l2 \<subseteq> board_cells" by auto
    with "1.IH"[OF _ _ a refl "1.prems"(1)] True obtain r where
      "scan_spaces s end_row l2 (Suc i) c2 = Some r"
      by auto
    with True a show ?thesis
      by (simp add: scan_spaces.simps[of s end_row space_list i add_counter])
  qed
qed

lemma rec_is_valid_path_total:
  "shape s \<Longrightarrow> set sl \<subseteq> board_cells \<Longrightarrow> \<exists>r. rec_is_valid_path s sl end_row = Some r"
proof (induction s sl end_row rule: rec_is_valid_path.induct)
  case (1 s space_list end_row)
  from scan_spaces_total[OF "1.prems", of end_row 0 0] obtain r where
    r: "scan_spaces s end_row space_list 0 0 = Some r" ..
  show ?case
  proof (cases r)
    case (Found l)
    with r show ?thesis
      by (auto simp: rec_is_valid_path.simps[of s space_list end_row])
  next
    case (Exhausted l k)
    show ?thesis
    proof (cases "k = 0")
      case True
      with r Exhausted show ?thesis
        by (auto simp: rec_is_valid_path.simps[of s space_list end_row])
    next
      case False
      from scan_spaces_result[OF r[unfolded Exhausted]] "1.prems"(2)
      have "set l \<subseteq> board_cells" by auto
      from "1.IH"[OF r Exhausted False "1.prems"(1) this] r Exhausted False
      show ?thesis
        by (auto simp: rec_is_valid_path.simps[of s space_list end_row])
    qed
  qed
qed


text \<open>A pawn that \<open>_position\<close> finds stands inside the board, on a cell that holds it.\<close>

lemma position_from_Some:
  assumes "position_from arr p cols = Some c" "set cols \<subseteq> {0..<9}"
  shows "in_board c \<and> arr ! nat (fst c) ! nat (snd c) = p"
  using assms
proof (induction cols)
  case Nil
  then show ?case by simp
next
  case (Cons column rest)
  show ?case
  proof (cases "p \<in> set (arr ! column)")
    case False
    with Cons show ?thesis by simp
  next
    case True
    show ?thesis
    proof (cases "find (\<lambda>row. arr ! column ! row = p) [0..<9]")
      case None
      with True Cons show ?thesis by simp
    next
      case (Some row)
      then have "row \<in> set [0..<9]" and v: "arr ! column ! row = p"
        by (auto simp: find_Some_iff)
      then have row: "row < 9" by simp
      from Some True Cons.prems have c: "c = (int column, int row)" by simp
      from Cons.prems have "column < 9" by simp
      with row v c show ?thesis by (simp add: in_board_def)
    qed
  qed
qed

lemma position_Some:
  assumes "position s p = Some c"
  shows "in_board c" "board s ! 0 ! nat (fst c) ! nat (snd c) = p"
  using position_from_Some[OF assms[unfolded position_def]] by auto

lemma is_valid_path_shape:
  assumes sh: "shape s" and a: "a = 1 \<or> a = 2"
    and r: "0 \<le> fst coords" "fst coords \<le> 8" "0 \<le> snd coords" "snd coords \<le> 8"
  shows "is_valid_path s player a coords =
           do { start \<leftarrow> position s (if player = 1 then 2 else 1);
                result \<leftarrow> rec_is_valid_path (put s (nat a) (nat (fst coords)) (nat (snd coords)) 1)
                            [start] (if player = 1 then 0 else 8);
                Some (fst result, put s (nat a) (nat (fst coords)) (nat (snd coords)) 0) }"
proof -
  have ar: "0 \<le> a" "a \<le> 2" and n: "nat a < 3" "nat (fst coords) < 9" "nat (snd coords) < 9" "0 < nat a"
    using a r by auto
  let ?s1 = "put s (nat a) (nat (fst coords)) (nat (snd coords)) 1"
  have 1: "board_set s a (fst coords) (snd coords) 1 = Some ?s1"
    by (rule board_set_put[OF sh ar r])
  have 2: "board_set ?s1 a (fst coords) (snd coords) 0
             = Some (put s (nat a) (nat (fst coords)) (nat (snd coords)) 0)"
    using board_set_put[OF shape_put[OF sh] ar r, of "nat a" "nat (fst coords)" "nat (snd coords)" 1 0]
      put_put_same[OF sh n(1-3)] by simp
  show ?thesis
    by (simp add: is_valid_path_def Let_def 1 2 position_put[OF sh n(4)])
qed

lemma is_valid_path_total:
  assumes sh: "shape s" and a: "a = 1 \<or> a = 2"
    and r: "0 \<le> fst coords" "fst coords \<le> 8" "0 \<le> snd coords" "snd coords \<le> 8"
    and p: "position s (if player = 1 then 2 else 1) \<noteq> None"
  shows "\<exists>ok. is_valid_path s player a coords
              = Some (ok, put s (nat a) (nat (fst coords)) (nat (snd coords)) 0)"
proof -
  from p obtain start where st: "position s (if player = 1 then 2 else 1) = Some start" by auto
  from position_Some(1)[OF st] have "set [start] \<subseteq> board_cells" by (simp add: in_board_cells)
  from rec_is_valid_path_total[OF shape_put[OF sh] this] obtain res where
    "rec_is_valid_path (put s (nat a) (nat (fst coords)) (nat (snd coords)) 1) [start]
       (if player = 1 then 0 else 8) = Some res" by blast
  then show ?thesis
    unfolding is_valid_path_shape[OF sh a r] st by simp
qed

section \<open>Outcomes of \<open>place_fence\<close>\<close>

text \<open>Both pawns are on the board: \<open>_position\<close> finds a cell for players 1 and 2.\<close>

definition pawns_placed :: "game \<Rightarrow> bool" where
  "pawns_placed s = (position s 1 \<noteq> None \<and> position s 2 \<noteq> None)"

lemma is_winner_position:
  "is_winner s player =
     (if player = 1 then map_option (\<lambda>c. snd c = 8) (position s 1)
      else if player = 2 then map_option (\<lambda>c. snd c = 0) (position s 2)
      else Some False)"
  by (cases "position s player") (auto simp: is_winner_def)

lemma player_may_move_total:
  assumes "pawns_placed s"
  shows "\<exists>b. player_may_move s player = Some b"
  using assms by (auto simp: pawns_placed_def player_may_move_def is_winner_position)

lemma anchor_ok_range:
  assumes "anchor_ok orientation coords"
  shows "fence_index orientation = 1 \<or> fence_index orientation = 2"
    "0 \<le> fst coords" "fst coords \<le> 8" "0 \<le> snd coords" "snd coords \<le> 8"
  using assms by (auto simp: anchor_ok_def fence_index_def split: if_splits)

lemma spend_fields [simp]:
  "board (spend s p) = board s" "first_player_turn (spend s p) = first_player_turn s"
  by (simp_all add: spend_def)

text \<open>The three ways \<open>place_fence\<close> returns, on a board of the right shape.\<close>

lemma place_fence_outcomes:
  assumes sh: "shape s" and pf: "place_fence s player orientation coords = Some (r, s')"
  obtains
    (refused) "r = PyBool False" "s' = s"
  | (unfair) f where "player_may_move s player = Some True" "budget_left s player"
      "anchor_ok orientation coords"
      "board_get s (fence_index orientation) (fst coords) (snd coords) = Some f" "f \<noteq> 1"
      "is_valid_path s player (fence_index orientation) coords
         = Some (False, put s (nat (fence_index orientation)) (nat (fst coords)) (nat (snd coords)) 0)"
      "r = PyStr ''breaks the fair play rule''"
      "s' = put s (nat (fence_index orientation)) (nat (fst coords)) (nat (snd coords)) 0"
  | (placed) f where "player_may_move s player = Some True" "budget_left s player"
      "anchor_ok orientation coords"
      "board_get s (fence_index orientation) (fst coords) (snd coords) = Some f" "f \<noteq> 1"
      "is_valid_path s player (fence_index orientation) coords
         = Some (True, put s (nat (fence_index orientation)) (nat (fst coords)) (nat (snd coords)) 0)"
      "r = PyBool True"
      "s' = (spend (put s (nat (fence_index orientation)) (nat (fst coords)) (nat (snd coords)) 1) player)
              \<lparr>first_player_turn := \<not> first_player_turn s\<rparr>"
proof -
  let ?a = "fence_index orientation"
  let ?put = "put s (nat ?a) (nat (fst coords)) (nat (snd coords))"
  from pf obtain may where may: "player_may_move s player = Some may"
    by (auto simp: place_fence_unfold split: bind_splits)
  show thesis
  proof (cases "\<not> may \<or> \<not> budget_left s player \<or> \<not> anchor_ok orientation coords")
    case True
    with pf may have "r = PyBool False" "s' = s" by (auto simp: place_fence_unfold)
    then show thesis by (rule refused)
  next
    case False
    then have ok: "may" "budget_left s player" "anchor_ok orientation coords" by auto
    note rg = anchor_ok_range[OF ok(3)]
    have ar: "0 \<le> ?a" "?a \<le> 2" and n: "nat ?a < 3" "nat (fst coords) < 9" "nat (snd coords) < 9"
      using rg by auto
    from pf may ok obtain f where f: "board_get s ?a (fst coords) (snd coords) = Some f"
      by (auto simp: place_fence_unfold split: bind_splits)
    show thesis
    proof (cases "f = 1")
      case True
      with pf may ok f have "r = PyBool False" "s' = s" by (auto simp: place_fence_unfold)
      then show thesis by (rule refused)
    next
      case f1: False
      from pf may ok f f1 obtain v where v: "is_valid_path s player ?a coords = Some v"
        by (auto simp: place_fence_unfold split: bind_splits)
      then have v2: "snd v = ?put 0"
        by (auto simp: is_valid_path_shape[OF sh rg] split: bind_splits)
      have bs: "board_set (?put 0) ?a (fst coords) (snd coords) 1 = Some (?put 1)"
        using board_set_put[OF shape_put[OF sh] ar rg(2-), of "nat ?a" "nat (fst coords)" "nat (snd coords)" 0 1]
          put_put_same[OF sh n] by simp
      show thesis
      proof (cases "fst v")
        case False
        with v v2 have iv: "is_valid_path s player ?a coords = Some (False, ?put 0)"
          by (cases v) simp
        with pf may ok f f1 have "r = PyStr ''breaks the fair play rule''" "s' = ?put 0"
          by (auto simp: place_fence_unfold)
        with may ok f f1 iv show thesis by (intro unfair) auto
      next
        case True
        with v v2 have iv: "is_valid_path s player ?a coords = Some (True, ?put 0)"
          by (cases v) simp
        with pf may ok f f1 bs have "r = PyBool True"
          "s' = (spend (?put 1) player)\<lparr>first_player_turn := \<not> first_player_turn s\<rparr>"
          by (auto simp: place_fence_unfold)
        with may ok f f1 iv show thesis by (intro placed) auto
      qed
    qed
  qed
qed


lemma put_zero_same:
  assumes "shape s" "anchor_ok orientation coords"
    and "board_get s (fence_index orientation) (fst coords) (snd coords) = Some 0"
  shows "put s (nat (fence_index orientation)) (nat (fst coords)) (nat (snd coords)) 0 = s"
proof -
  note rg = anchor_ok_range[OF assms(2)]
  have ar: "0 \<le> fence_index orientation" "fence_index orientation \<le> 2" using rg by auto
  from board_get_nth[OF assms(1) ar rg(2-)] assms(3)
  show ?thesis by (intro put_same) simp
qed

lemma free_anchor_zero:
  assumes "shape s" "fences_binary s" "anchor_ok orientation coords"
    and "board_get s (fence_index orientation) (fst coords) (snd coords) = Some f" "f \<noteq> 1"
  shows "f = 0"
  using fences_binary_get[OF assms(1,2) anchor_ok_range[OF assms(3)]] assms(4,5) by auto

lemma move_pawn_refused:
  assumes "move_pawn s player destination = Some (False, s')"
  shows "s' = s"
  using assms by (auto simp: move_pawn_def Let_def split: bind_splits if_splits)

lemma place_fence_refused:
  assumes "shape s" "fences_binary s"
    and "place_fence s player orientation coords = Some (r, s')" "r \<noteq> PyBool True"
  shows "s' = s"
  using assms(1,3)
proof (cases rule: place_fence_outcomes)
  case refused
  then show ?thesis by simp
next
  case (unfair f)
  from free_anchor_zero[OF assms(1,2) unfair(3,4,5)] unfair(4)
  have "put s (nat (fence_index orientation)) (nat (fst coords)) (nat (snd coords)) 0 = s"
    by (intro put_zero_same[OF assms(1) unfair(3)]) simp
  with unfair show ?thesis by simp
next
  case (placed f)
  with assms(4) show ?thesis by simp
qed

lemma is_valid_path_restores:
  assumes "shape s" "fences_binary s" "anchor_ok orientation coords"
    and "board_get s (fence_index orientation) (fst coords) (snd coords) \<noteq> Some 1"
    and "is_valid_path s player (fence_index orientation) coords = Some (ok, s1)"
  shows "s1 = s"
proof -
  note rg = anchor_ok_range[OF assms(3)]
  from fences_binary_get[OF assms(1,2) rg] assms(4)
  have z: "board_get s (fence_index orientation) (fst coords) (snd coords) = Some 0" by auto
  from assms(5)
  have "s1 = put s (nat (fence_index orientation)) (nat (fst coords)) (nat (snd coords)) 0"
    by (auto simp: is_valid_path_shape[OF assms(1) rg] split: bind_splits)
  with put_zero_same[OF assms(1,3) z] show ?thesis by simp
qed

text \<open>
  C4. A refused call leaves the game as it was: \<open>move_pawn\<close> returning \<open>False\<close>, and
  \<open>place_fence\<close> returning anything but \<open>True\<close>, return the game they were given; and
  \<open>_is_valid_path\<close>, called as \<open>place_fence\<close> calls it (an accepted anchor that holds
  no fence), returns the game it was given whatever its answer, so the provisional fence
  is gone when it returns. (A call that raises returns nothing; on a board of this shape
  with both pawns placed \<open>place_fence\<close> never raises, see \<open>place_fence_returns\<close>.)
\<close>

theorem refused_call_keeps_state:
  assumes "shape s" "fences_binary s"
  shows "(move_pawn s player destination = Some (False, s1) \<longrightarrow> s1 = s)
       \<and> (place_fence s player orientation coords = Some (r, s2) \<and> r \<noteq> PyBool True \<longrightarrow> s2 = s)
       \<and> (anchor_ok orientation coords
            \<and> board_get s (fence_index orientation) (fst coords) (snd coords) \<noteq> Some 1
            \<and> is_valid_path s player (fence_index orientation) coords = Some (ok, s3)
          \<longrightarrow> s3 = s)"
  using move_pawn_refused[of s player destination s1]
    place_fence_refused[OF assms, of player orientation coords r s2]
    is_valid_path_restores[OF assms, of orientation coords player ok s3]
  by blast

text \<open>
  A game in which Player 2, on (4,8), has the vertical fences (4,8) and (5,8) on both
  sides; the horizontal fence (4,8) would close the cell.
\<close>

definition sealing_calls :: "call list" where
  "sealing_calls =
     [Place_fence 1 ''v'' (4, 8), Place_fence 2 ''h'' (0, 1),
      Place_fence 1 ''v'' (5, 8), Place_fence 2 ''h'' (1, 1)]"

definition sealing_game :: game where
  "sealing_game =
     (put (put (put (put init_game 1 4 8 1) 2 0 1 1) 1 5 8 1) 2 1 1 1)
       \<lparr>player_one_fences := 8, player_two_fences := 8\<rparr>"

lemma sealing_game_reached:
  "run init_game sealing_calls = Some (replicate 4 (PyBool True), sealing_game)"
  by code_simp

lemma sealing_game_shape: "shape sealing_game \<and> fences_binary sealing_game"
  by code_simp

lemma sealing_fence_result:
  "map_option fst (place_fence sealing_game 1 ''h'' (4, 8)) = Some (PyStr ''breaks the fair play rule'')"
  by code_simp

theorem refused_call_keeps_state_witness:
  "shape sealing_game \<and> fences_binary sealing_game \<and>
   place_fence sealing_game 1 ''h'' (4, 8) = Some (PyStr ''breaks the fair play rule'', sealing_game)"
proof -
  have sh: "shape sealing_game" and fb: "fences_binary sealing_game"
    using sealing_game_shape by simp_all
  from sealing_fence_result obtain s2 where
    pf: "place_fence sealing_game 1 ''h'' (4, 8) = Some (PyStr ''breaks the fair play rule'', s2)"
    by auto
  with refused_call_keeps_state[OF sh fb, of 1 "(0, 0)" sealing_game "''h''" "(4, 8)"
      "PyStr ''breaks the fair play rule''" s2 True sealing_game]
  have "s2 = sealing_game" by simp
  with sh fb pf show ?thesis by simp
qed

text \<open>
  C10. When every earlier test passes and \<open>_is_valid_path\<close> answers \<open>False\<close>,
  \<open>place_fence\<close> returns the string \<open>'breaks the fair play rule'\<close> and the game
  unchanged; \<open>place_fence\<close> returns nothing but \<open>True\<close>, \<open>False\<close> and that string, and
  the string only in that case; the string is truthy and \<open>False\<close> is not.
\<close>

theorem fair_play_rejection_string:
  assumes "shape s" "fences_binary s"
  shows "(player_may_move s player = Some True \<and> budget_left s player
            \<and> anchor_ok orientation coords
            \<and> board_get s (fence_index orientation) (fst coords) (snd coords) \<noteq> Some 1
            \<and> is_valid_path s player (fence_index orientation) coords = Some (False, s1)
          \<longrightarrow> place_fence s player orientation coords
                = Some (PyStr ''breaks the fair play rule'', s))
       \<and> (place_fence s player orientation coords = Some (r, s2) \<longrightarrow>
            (r = PyBool True \<or> r = PyBool False \<or> r = PyStr ''breaks the fair play rule'') \<and>
            (r = PyStr ''breaks the fair play rule'' \<longrightarrow>
               s2 = s \<and>
               is_valid_path s player (fence_index orientation) coords = Some (False, s)))
       \<and> truthy (PyStr ''breaks the fair play rule'') \<and> \<not> truthy (PyBool False)"
proof (intro conjI impI)
  assume h: "player_may_move s player = Some True \<and> budget_left s player
            \<and> anchor_ok orientation coords
            \<and> board_get s (fence_index orientation) (fst coords) (snd coords) \<noteq> Some 1
            \<and> is_valid_path s player (fence_index orientation) coords = Some (False, s1)"
  then have ao: "anchor_ok orientation coords" by simp
  from fences_binary_get[OF assms anchor_ok_range[OF ao]] h
  have z: "board_get s (fence_index orientation) (fst coords) (snd coords) = Some 0" by auto
  from is_valid_path_restores[OF assms ao, of player False s1] h have "s1 = s" by simp
  with h z show "place_fence s player orientation coords
                = Some (PyStr ''breaks the fair play rule'', s)"
    by (simp add: place_fence_unfold)
next
  assume pf: "place_fence s player orientation coords = Some (r, s2)"
  from assms(1) pf
  show "r = PyBool True \<or> r = PyBool False \<or> r = PyStr ''breaks the fair play rule''"
    by (cases rule: place_fence_outcomes) simp_all
  assume r: "r = PyStr ''breaks the fair play rule''"
  with place_fence_refused[OF assms pf] show s2: "s2 = s" by simp
  from assms(1) pf
  show "is_valid_path s player (fence_index orientation) coords = Some (False, s)"
  proof (cases rule: place_fence_outcomes)
    case (unfair f)
    with s2 show ?thesis by simp
  qed (use r in simp_all)
qed simp_all

theorem fair_play_rejection_string_witness:
  "shape sealing_game \<and> fences_binary sealing_game \<and>
   place_fence sealing_game 1 ''h'' (4, 8) \<noteq> None \<and>
   is_valid_path sealing_game 1 (fence_index ''h'') (4, 8) = Some (False, sealing_game)"
proof -
  have sh: "shape sealing_game" and fb: "fences_binary sealing_game"
    using sealing_game_shape by simp_all
  from sealing_fence_result obtain s2 where
    pf: "place_fence sealing_game 1 ''h'' (4, 8) = Some (PyStr ''breaks the fair play rule'', s2)"
    by auto
  with fair_play_rejection_string[OF sh fb, of 1 "''h''" "(4, 8)" sealing_game
      "PyStr ''breaks the fair play rule''" s2]
  have "is_valid_path sealing_game 1 (fence_index ''h'') (4, 8) = Some (False, sealing_game)"
    by simp
  with sh fb pf show ?thesis by simp
qed

section \<open>A player value other than 1 and 2\<close>

text \<open>
  C9. For a player value other than 1 and 2, while nobody has won, \<open>place_fence\<close>
  tests neither the turn nor a budget: with an accepted orientation and anchor, no fence
  at the anchor and \<open>_is_valid_path\<close> answering \<open>True\<close>, it returns \<open>True\<close>, the anchor
  holds a fence afterwards, both fence counts are unchanged and the turn flag is flipped.
\<close>

theorem other_player_value_places_fence:
  assumes "shape s"
    and "player \<noteq> 1" "player \<noteq> 2"
    and "is_winner s 1 = Some False" "is_winner s 2 = Some False"
    and "anchor_ok orientation coords"
    and "board_get s (fence_index orientation) (fst coords) (snd coords) \<noteq> Some 1"
    and "is_valid_path s player (fence_index orientation) coords = Some (True, s1)"
  shows "\<exists>s2. place_fence s player orientation coords = Some (PyBool True, s2) \<and>
              s2 = (put s (nat (fence_index orientation)) (nat (fst coords)) (nat (snd coords)) 1)
                     \<lparr>first_player_turn := \<not> first_player_turn s\<rparr> \<and>
              board_get s2 (fence_index orientation) (fst coords) (snd coords) = Some 1 \<and>
              player_one_fences s2 = player_one_fences s \<and>
              player_two_fences s2 = player_two_fences s \<and>
              first_player_turn s2 = (\<not> first_player_turn s)"
proof -
  let ?a = "fence_index orientation"
  let ?put = "put s (nat ?a) (nat (fst coords)) (nat (snd coords))"
  note rg = anchor_ok_range[OF assms(6)]
  have ar: "0 \<le> ?a" "?a \<le> 2" and n: "nat ?a < 3" "nat (fst coords) < 9" "nat (snd coords) < 9"
    using rg by auto
  have may: "player_may_move s player = Some True"
    using assms(2-5) by (simp add: player_may_move_def)
  have bl: "budget_left s player" using assms(2,3) by (simp add: budget_left_def)
  from board_get_nth[OF assms(1) ar rg(2-)] assms(7) obtain f where
    f: "board_get s ?a (fst coords) (snd coords) = Some f" "f \<noteq> 1" by auto
  from assms(8) have s1: "s1 = ?put 0"
    by (auto simp: is_valid_path_shape[OF assms(1) rg] split: bind_splits)
  have bs: "board_set (?put 0) ?a (fst coords) (snd coords) 1 = Some (?put 1)"
    using board_set_put[OF shape_put[OF assms(1)] ar rg(2-), of "nat ?a" "nat (fst coords)" "nat (snd coords)" 0 1]
      put_put_same[OF assms(1) n] by simp
  have sp: "spend (?put 1) player = ?put 1" using assms(2,3) by (simp add: spend_def)
  have pf: "place_fence s player orientation coords
              = Some (PyBool True, (?put 1)\<lparr>first_player_turn := \<not> first_player_turn s\<rparr>)"
    using may bl assms(6,8) f s1 bs sp by (simp add: place_fence_unfold)
  have g: "board_get ((?put 1)\<lparr>first_player_turn := \<not> first_player_turn s\<rparr>) ?a (fst coords) (snd coords)
             = Some 1"
    using board_get_put[OF assms(1) n ar rg(2-), of 1] by (simp add: board_get_def)
  from pf g show ?thesis by simp
qed

theorem other_player_value_places_fence_witness:
  "shape init_game \<and> (3::int) \<noteq> 1 \<and> (3::int) \<noteq> 2 \<and>
   is_winner init_game 1 = Some False \<and> is_winner init_game 2 = Some False \<and>
   anchor_ok ''v'' (1, 1) \<and>
   is_valid_path init_game 3 (fence_index ''v'') (1, 1) = Some (True, init_game) \<and>
   place_fence init_game 3 ''v'' (1, 1)
     = Some (PyBool True, (put init_game 1 1 1 1)\<lparr>first_player_turn := False\<rparr>)"
proof -
  have sh: "shape init_game" by code_simp
  have w: "is_winner init_game 1 = Some False" "is_winner init_game 2 = Some False" by code_simp+
  have ao: "anchor_ok ''v'' (1, 1)" by code_simp
  have free: "board_get init_game (fence_index ''v'') (fst (1, 1)) (snd (1, 1)) \<noteq> Some 1"
    by code_simp
  have vp: "is_valid_path init_game 3 (fence_index ''v'') (1, 1) = Some (True, init_game)"
    by code_simp
  have t: "first_player_turn init_game" by code_simp
  have fi: "nat (fence_index ''v'') = 1" by code_simp
  from other_player_value_places_fence[OF sh _ _ w ao free vp] t fi
  have "place_fence init_game 3 ''v'' (1, 1)
     = Some (PyBool True, (put init_game 1 1 1 1)\<lparr>first_player_turn := False\<rparr>)"
    by simp
  with sh w ao vp show ?thesis by simp
qed


section \<open>The fence budget\<close>

text \<open>A call that is a placement by \<open>player\<close> and returned \<open>True\<close>.\<close>

fun placed_by :: "int \<Rightarrow> call \<Rightarrow> py_result \<Rightarrow> bool" where
  "placed_by player (Place_fence q orientation coords) r = (q = player \<and> r = PyBool True)"
| "placed_by player (Move_pawn q destination) r = False"

lemma move_pawn_budgets:
  assumes "move_pawn s player destination = Some (b, s')"
  shows "player_one_fences s' = player_one_fences s \<and> player_two_fences s' = player_two_fences s"
proof (cases b)
  case False
  with assms move_pawn_refused[of s player destination s'] show ?thesis by simp
next
  case True
  with assms obtain p s2 where
    1: "board_set (s\<lparr>first_player_turn := \<not> first_player_turn s\<rparr>) 0 (fst p) (snd p) 0 = Some s2"
    and 2: "board_set s2 0 (fst destination) (snd destination) player = Some s'"
    by (auto simp: move_pawn_def Let_def split: bind_splits if_splits)
  from board_set_Some[OF 1] board_set_Some[OF 2] show ?thesis by auto
qed

lemma is_valid_path_budgets:
  assumes "is_valid_path s player a coords = Some (ok, s')"
  shows "\<exists>b. s' = s\<lparr>board := b\<rparr>"
proof -
  from assms obtain s1 where
    1: "board_set s a (fst coords) (snd coords) 1 = Some s1"
    and 2: "board_set s1 a (fst coords) (snd coords) 0 = Some s'"
    by (auto simp: is_valid_path_def Let_def split: bind_splits)
  from board_set_Some[OF 1] board_set_Some[OF 2] show ?thesis by auto
qed

lemma place_fence_cases:
  assumes pf: "place_fence s player orientation coords = Some (r, s')"
  obtains
    (refused) "r = PyBool False" "s' = s"
  | (unfair) s1 where
      "is_valid_path s player (fence_index orientation) coords = Some (False, s1)"
      "r = PyStr ''breaks the fair play rule''" "s' = s1"
  | (placed) s1 s2 where "budget_left s player"
      "is_valid_path s player (fence_index orientation) coords = Some (True, s1)"
      "board_set s1 (fence_index orientation) (fst coords) (snd coords) 1 = Some s2"
      "r = PyBool True"
      "s' = (spend s2 player)\<lparr>first_player_turn := \<not> first_player_turn s2\<rparr>"
proof -
  let ?a = "fence_index orientation"
  from pf obtain may where may: "player_may_move s player = Some may"
    by (auto simp: place_fence_unfold split: bind_splits)
  show thesis
  proof (cases "\<not> may \<or> \<not> budget_left s player \<or> \<not> anchor_ok orientation coords")
    case True
    with pf may have "r = PyBool False" "s' = s" by (auto simp: place_fence_unfold)
    then show thesis by (rule refused)
  next
    case False
    then have ok: "may" "budget_left s player" "anchor_ok orientation coords" by auto
    from pf may ok obtain f where f: "board_get s ?a (fst coords) (snd coords) = Some f"
      by (auto simp: place_fence_unfold split: bind_splits)
    show thesis
    proof (cases "f = 1")
      case True
      with pf may ok f have "r = PyBool False" "s' = s" by (auto simp: place_fence_unfold)
      then show thesis by (rule refused)
    next
      case f1: False
      from pf may ok f f1 obtain v where v: "is_valid_path s player ?a coords = Some v"
        by (auto simp: place_fence_unfold split: bind_splits)
      show thesis
      proof (cases "fst v")
        case False
        with v have iv: "is_valid_path s player ?a coords = Some (False, snd v)"
          by (cases v) simp
        from pf may ok f f1 v False have "r = PyStr ''breaks the fair play rule''" "s' = snd v"
          by (auto simp: place_fence_unfold)
        with iv show thesis by (intro unfair)
      next
        case True
        with v have iv: "is_valid_path s player ?a coords = Some (True, snd v)"
          by (cases v) simp
        from pf may ok f f1 v True obtain s2 where
          bs: "board_set (snd v) ?a (fst coords) (snd coords) 1 = Some s2"
          by (auto simp: place_fence_unfold split: bind_splits)
        with pf may ok f f1 v True have "r = PyBool True"
          "s' = (spend s2 player)\<lparr>first_player_turn := \<not> first_player_turn s2\<rparr>"
          by (auto simp: place_fence_unfold)
        with ok(2) iv bs show thesis by (intro placed)
      qed
    qed
  qed
qed

lemma place_fence_budgets:
  assumes "place_fence s player orientation coords = Some (r, s')"
  shows "player_one_fences s' =
           (if player = 1 \<and> r = PyBool True then player_one_fences s - 1 else player_one_fences s)"
    and "player_two_fences s' =
           (if player = 2 \<and> r = PyBool True then player_two_fences s - 1 else player_two_fences s)"
    and "r = PyBool True \<Longrightarrow> budget_left s player"
proof -
  have "(player_one_fences s' =
           (if player = 1 \<and> r = PyBool True then player_one_fences s - 1 else player_one_fences s))
      \<and> (player_two_fences s' =
           (if player = 2 \<and> r = PyBool True then player_two_fences s - 1 else player_two_fences s))
      \<and> (r = PyBool True \<longrightarrow> budget_left s player)"
    using assms
  proof (cases rule: place_fence_cases)
    case refused
    then show ?thesis by simp
  next
    case (unfair s1)
    from is_valid_path_budgets[OF unfair(1)] unfair(2,3) show ?thesis by auto
  next
    case (placed s1 s2)
    from is_valid_path_budgets[OF placed(2)] board_set_Some[OF placed(3)]
    obtain b where "s2 = s\<lparr>board := b\<rparr>" by auto
    with placed(1,4,5) show ?thesis by (auto simp: spend_def)
  qed
  then show "player_one_fences s' =
           (if player = 1 \<and> r = PyBool True then player_one_fences s - 1 else player_one_fences s)"
    and "player_two_fences s' =
           (if player = 2 \<and> r = PyBool True then player_two_fences s - 1 else player_two_fences s)"
    and "r = PyBool True \<Longrightarrow> budget_left s player"
    by simp_all
qed

lemma do_call_budgets:
  assumes "do_call s c = Some (r, s')"
  shows "player_one_fences s' =
           (if placed_by 1 c r then player_one_fences s - 1 else player_one_fences s)"
    and "player_two_fences s' =
           (if placed_by 2 c r then player_two_fences s - 1 else player_two_fences s)"
    and "placed_by 1 c r \<Longrightarrow> player_one_fences s \<noteq> 0"
    and "placed_by 2 c r \<Longrightarrow> player_two_fences s \<noteq> 0"
proof -
  have "(player_one_fences s' =
           (if placed_by 1 c r then player_one_fences s - 1 else player_one_fences s))
      \<and> (player_two_fences s' =
           (if placed_by 2 c r then player_two_fences s - 1 else player_two_fences s))
      \<and> (placed_by 1 c r \<longrightarrow> player_one_fences s \<noteq> 0)
      \<and> (placed_by 2 c r \<longrightarrow> player_two_fences s \<noteq> 0)"
  proof (cases c)
    case (Move_pawn q d)
    from assms[unfolded Move_pawn] obtain m where m: "move_pawn s q d = Some m" "s' = snd m"
      by (cases "move_pawn s q d") auto
    then have "move_pawn s q d = Some (fst m, s')" by simp
    from move_pawn_budgets[OF this] Move_pawn show ?thesis by simp
  next
    case (Place_fence q ori xy)
    with assms have pf: "place_fence s q ori xy = Some (r, s')" by simp
    note b = place_fence_budgets[OF pf]
    have 1: "placed_by 1 c r \<longleftrightarrow> q = 1 \<and> r = PyBool True"
      and 2: "placed_by 2 c r \<longleftrightarrow> q = 2 \<and> r = PyBool True"
      using Place_fence by simp_all
    have 3: "placed_by 1 c r \<longrightarrow> player_one_fences s \<noteq> 0"
      using b(3) 1 by (simp add: budget_left_def)
    have 4: "placed_by 2 c r \<longrightarrow> player_two_fences s \<noteq> 0"
      using b(3) 2 by (simp add: budget_left_def)
    from b(1,2) 3 4 show ?thesis unfolding 1 2 by blast
  qed
  then show "player_one_fences s' =
           (if placed_by 1 c r then player_one_fences s - 1 else player_one_fences s)"
    and "player_two_fences s' =
           (if placed_by 2 c r then player_two_fences s - 1 else player_two_fences s)"
    and "placed_by 1 c r \<Longrightarrow> player_one_fences s \<noteq> 0"
    and "placed_by 2 c r \<Longrightarrow> player_two_fences s \<noteq> 0"
    by simp_all
qed

lemma run_budgets:
  "run s cs = Some (rs, s') \<Longrightarrow> 0 \<le> player_one_fences s \<Longrightarrow> 0 \<le> player_two_fences s \<Longrightarrow>
   0 \<le> player_one_fences s' \<and> player_one_fences s' \<le> player_one_fences s \<and>
   0 \<le> player_two_fences s' \<and> player_two_fences s' \<le> player_two_fences s"
proof (induction cs arbitrary: s rs)
  case Nil
  then show ?case by simp
next
  case (Cons c cs)
  from Cons.prems(1) obtain r s1 rs1 where
    c: "do_call s c = Some (r, s1)" and rest: "run s1 cs = Some (rs1, s')"
    by (auto split: bind_splits)
  note b = do_call_budgets[OF c]
  have 1: "0 \<le> player_one_fences s1" "player_one_fences s1 \<le> player_one_fences s"
    using b(1,3) Cons.prems(2) by (auto split: if_splits)
  have 2: "0 \<le> player_two_fences s1" "player_two_fences s1 \<le> player_two_fences s"
    using b(2,4) Cons.prems(3) by (auto split: if_splits)
  from Cons.IH[OF rest 1(1) 2(1)] 1 2 show ?case by simp
qed

lemma no_budget_refused:
  assumes "pawns_placed s" "\<not> budget_left s player"
  shows "place_fence s player orientation coords = Some (PyBool False, s)"
proof -
  from player_may_move_total[OF assms(1)] obtain b where "player_may_move s player = Some b" ..
  with assms(2) show ?thesis by (simp add: place_fence_unfold)
qed


text \<open>
  C7. Both counts start at 10. A call changes a player's count only when it is a
  placement by that player that returns \<open>True\<close>, and then by exactly -1; over any run of
  calls the counts never grow and, once non-negative, stay so; and with a count of 0
  (both pawns on the board, so that the turn test does not raise) every placement by
  that player returns \<open>False\<close> and the game unchanged, whatever orientation and anchor.
\<close>

theorem fence_budget:
  "player_one_fences init_game = 10 \<and> player_two_fences init_game = 10
   \<and> (do_call s c = Some (r, s1) \<longrightarrow>
        player_one_fences s1 =
          (if placed_by 1 c r then player_one_fences s - 1 else player_one_fences s) \<and>
        player_two_fences s1 =
          (if placed_by 2 c r then player_two_fences s - 1 else player_two_fences s))
   \<and> (run s cs = Some (rs, s2) \<and> 0 \<le> player_one_fences s \<and> 0 \<le> player_two_fences s \<longrightarrow>
        0 \<le> player_one_fences s2 \<and> player_one_fences s2 \<le> player_one_fences s \<and>
        0 \<le> player_two_fences s2 \<and> player_two_fences s2 \<le> player_two_fences s)
   \<and> (pawns_placed s \<and> player_one_fences s = 0 \<longrightarrow>
        place_fence s 1 orientation coords = Some (PyBool False, s))
   \<and> (pawns_placed s \<and> player_two_fences s = 0 \<longrightarrow>
        place_fence s 2 orientation coords = Some (PyBool False, s))"
proof (intro conjI impI)
  show "player_one_fences init_game = 10" "player_two_fences init_game = 10"
    by (simp_all add: init_game_def)
next
  assume c: "do_call s c = Some (r, s1)"
  from do_call_budgets(1)[OF c]
  show "player_one_fences s1 =
          (if placed_by 1 c r then player_one_fences s - 1 else player_one_fences s)" .
  from do_call_budgets(2)[OF c]
  show "player_two_fences s1 =
          (if placed_by 2 c r then player_two_fences s - 1 else player_two_fences s)" .
next
  assume h: "run s cs = Some (rs, s2) \<and> 0 \<le> player_one_fences s \<and> 0 \<le> player_two_fences s"
  then have "0 \<le> player_one_fences s2 \<and> player_one_fences s2 \<le> player_one_fences s \<and>
        0 \<le> player_two_fences s2 \<and> player_two_fences s2 \<le> player_two_fences s"
    using run_budgets[of s cs rs s2] by blast
  then show "0 \<le> player_one_fences s2" "player_one_fences s2 \<le> player_one_fences s"
    "0 \<le> player_two_fences s2" "player_two_fences s2 \<le> player_two_fences s" by simp_all
next
  assume "pawns_placed s \<and> player_one_fences s = 0"
  then show "place_fence s 1 orientation coords = Some (PyBool False, s)"
    by (intro no_budget_refused) (simp_all add: budget_left_def)
next
  assume "pawns_placed s \<and> player_two_fences s = 0"
  then show "place_fence s 2 orientation coords = Some (PyBool False, s)"
    by (intro no_budget_refused) (simp_all add: budget_left_def)
qed

text \<open>
  Player 1 places ten fences, Player 2 stepping between (4,7) and (4,8) in between.
\<close>

definition ten_fences_calls :: "call list" where
  "ten_fences_calls =
     [Place_fence 1 ''v'' (1, 0), Move_pawn 2 (4, 7), Place_fence 1 ''v'' (2, 0), Move_pawn 2 (4, 8),
      Place_fence 1 ''v'' (3, 0), Move_pawn 2 (4, 7), Place_fence 1 ''v'' (4, 0), Move_pawn 2 (4, 8),
      Place_fence 1 ''v'' (5, 0), Move_pawn 2 (4, 7), Place_fence 1 ''v'' (6, 0), Move_pawn 2 (4, 8),
      Place_fence 1 ''v'' (7, 0), Move_pawn 2 (4, 7), Place_fence 1 ''v'' (8, 0), Move_pawn 2 (4, 8),
      Place_fence 1 ''v'' (1, 1), Move_pawn 2 (4, 7), Place_fence 1 ''v'' (2, 1), Move_pawn 2 (4, 8)]"

definition ten_fences_game :: game where
  "ten_fences_game =
     (put (put (put (put (put (put (put (put (put (put init_game
        1 1 0 1) 1 2 0 1) 1 3 0 1) 1 4 0 1) 1 5 0 1) 1 6 0 1) 1 7 0 1) 1 8 0 1) 1 1 1 1) 1 2 1 1)
       \<lparr>player_one_fences := 0\<rparr>"

lemma ten_fences_game_reached:
  "run init_game ten_fences_calls = Some (replicate 20 (PyBool True), ten_fences_game)"
  by code_simp

theorem fence_budget_witness:
  "pawns_placed ten_fences_game \<and> player_one_fences ten_fences_game = 0 \<and>
   place_fence ten_fences_game 1 ''h'' (3, 3) = Some (PyBool False, ten_fences_game)"
proof -
  have p: "pawns_placed ten_fences_game" by code_simp
  have z: "player_one_fences ten_fences_game = 0" by (simp add: ten_fences_game_def)
  from fence_budget[of ten_fences_game _ _ _ _ _ _ "''h''" "(3, 3)"] p z
  have "place_fence ten_fences_game 1 ''h'' (3, 3) = Some (PyBool False, ten_fences_game)"
    by blast
  with p z show ?thesis by simp
qed


section \<open>Winning\<close>

lemma game_over_refuses:
  assumes "pawns_placed s" "is_winner s 1 = Some True \<or> is_winner s 2 = Some True"
  shows "do_call s c = Some (PyBool False, s)"
proof -
  from assms(1) obtain w1 where w1: "is_winner s 1 = Some w1"
    by (auto simp: pawns_placed_def is_winner_position)
  with assms(2) have may: "player_may_move s p = Some False" for p
    by (cases w1) (auto simp: player_may_move_def)
  show ?thesis
  proof (cases c)
    case (Move_pawn q d)
    with may[of q] show ?thesis by (simp add: move_pawn_def)
  next
    case (Place_fence q ori xy)
    with may[of q] show ?thesis by (simp add: place_fence_unfold)
  qed
qed

lemma game_over_run:
  assumes "pawns_placed s" "is_winner s 1 = Some True \<or> is_winner s 2 = Some True"
  shows "run s cs = Some (replicate (length cs) (PyBool False), s)"
  by (induction cs) (simp_all add: game_over_refuses[OF assms])

text \<open>
  C6. \<open>is_winner(1)\<close> is the test that Player 1's pawn is on row 8, \<open>is_winner(2)\<close> that
  Player 2's pawn is on row 0; and once either holds, every \<open>move_pawn\<close> and
  \<open>place_fence\<close> by any player value returns \<open>False\<close> and the game unchanged, and so
  does every run of calls.
\<close>

theorem winner_and_game_over:
  "(position s 1 = Some c1 \<longrightarrow> is_winner s 1 = Some (snd c1 = 8))
   \<and> (position s 2 = Some c2 \<longrightarrow> is_winner s 2 = Some (snd c2 = 0))
   \<and> (pawns_placed s \<and> (is_winner s 1 = Some True \<or> is_winner s 2 = Some True) \<longrightarrow>
        move_pawn s player destination = Some (False, s) \<and>
        place_fence s player orientation coords = Some (PyBool False, s) \<and>
        run s cs = Some (replicate (length cs) (PyBool False), s))"
proof (intro conjI impI)
  assume "position s 1 = Some c1"
  then show "is_winner s 1 = Some (snd c1 = 8)" by (simp add: is_winner_position)
next
  assume "position s 2 = Some c2"
  then show "is_winner s 2 = Some (snd c2 = 0)" by (simp add: is_winner_position)
next
  assume h: "pawns_placed s \<and> (is_winner s 1 = Some True \<or> is_winner s 2 = Some True)"
  then have p: "pawns_placed s" and w: "is_winner s 1 = Some True \<or> is_winner s 2 = Some True"
    by simp_all
  from game_over_refuses[OF p w, of "Move_pawn player destination"]
  show "move_pawn s player destination = Some (False, s)"
    by (cases "move_pawn s player destination") (auto simp: prod_eq_iff)
  from game_over_refuses[OF p w, of "Place_fence player orientation coords"]
  show "place_fence s player orientation coords = Some (PyBool False, s)" by simp
  from game_over_run[OF p w]
  show "run s cs = Some (replicate (length cs) (PyBool False), s)" .
qed

text \<open>
  Player 1 walks up column 4 to row 8 while Player 2 steps between (3,8) and (2,8).
\<close>

definition winning_calls :: "call list" where
  "winning_calls =
     [Move_pawn 1 (4, 1), Move_pawn 2 (3, 8), Move_pawn 1 (4, 2), Move_pawn 2 (2, 8),
      Move_pawn 1 (4, 3), Move_pawn 2 (3, 8), Move_pawn 1 (4, 4), Move_pawn 2 (2, 8),
      Move_pawn 1 (4, 5), Move_pawn 2 (3, 8), Move_pawn 1 (4, 6), Move_pawn 2 (2, 8),
      Move_pawn 1 (4, 7), Move_pawn 2 (3, 8), Move_pawn 1 (4, 8)]"

definition won_game :: game where
  "won_game = (put (put (put init_game 0 4 0 0) 0 4 8 1) 0 3 8 2)\<lparr>first_player_turn := False\<rparr>"

lemma won_game_reached:
  "run init_game winning_calls = Some (replicate 15 (PyBool True), won_game)"
  by code_simp

theorem winner_and_game_over_witness:
  "position won_game 1 = Some (4, 8) \<and> position won_game 2 = Some (3, 8) \<and>
   pawns_placed won_game \<and> is_winner won_game 1 = Some True \<and>
   is_winner won_game 2 = Some False \<and>
   move_pawn won_game 2 (3, 7) = Some (False, won_game) \<and>
   place_fence won_game 2 ''v'' (1, 1) = Some (PyBool False, won_game) \<and>
   run won_game [Move_pawn 2 (3, 7), Place_fence 1 ''h'' (5, 5)]
     = Some ([PyBool False, PyBool False], won_game)"
proof -
  have p1: "position won_game 1 = Some (4, 8)" and p2: "position won_game 2 = Some (3, 8)"
    by code_simp+
  have pp: "pawns_placed won_game" using p1 p2 by (simp add: pawns_placed_def)
  note t = winner_and_game_over[of won_game "(4, 8)" "(3, 8)" 2 "(3, 7)" "''v''" "(1, 1)"
      "[Move_pawn 2 (3, 7), Place_fence 1 ''h'' (5, 5)]"]
  from t p1 have w1: "is_winner won_game 1 = Some True" by simp
  from t p2 have w2: "is_winner won_game 2 = Some False" by simp
  from t pp w1 have "move_pawn won_game 2 (3, 7) = Some (False, won_game) \<and>
   place_fence won_game 2 ''v'' (1, 1) = Some (PyBool False, won_game) \<and>
   run won_game [Move_pawn 2 (3, 7), Place_fence 1 ''h'' (5, 5)]
     = Some ([PyBool False, PyBool False], won_game)"
    by (simp del: run.simps)
  with p1 p2 pp w1 w2 show ?thesis by blast
qed

section \<open>Termination of the search\<close>

text \<open>
  The search cut off after \<open>n\<close> calls of \<open>_rec_is_valid_path\<close>: \<open>None\<close> when the
  \<open>n\<close>-th call would call again, and otherwise what the search returns.
\<close>

fun rec_rounds :: "nat \<Rightarrow> game \<Rightarrow> cell list \<Rightarrow> int \<Rightarrow> (bool \<times> cell list) option option" where
  "rec_rounds 0 s space_list end_row = None"
| "rec_rounds (Suc n) s space_list end_row =
     (case scan_spaces s end_row space_list 0 0 of
        None \<Rightarrow> Some None
      | Some (Found space_list') \<Rightarrow> Some (Some (True, space_list'))
      | Some (Exhausted space_list' add_counter) \<Rightarrow>
          if add_counter = 0 then Some (Some (False, space_list'))
          else rec_rounds n s space_list' end_row)"

fun scan_list :: "scan_result \<Rightarrow> cell list" where
  "scan_list (Found space_list) = space_list"
| "scan_list (Exhausted space_list add_counter) = space_list"

lemma card_board_cells: "card board_cells = 81"
  by (simp add: board_cells_def)

lemma scan_spaces_grows:
  "scan_spaces s end_row sl i c = Some res \<Longrightarrow>
   \<exists>new. scan_list res = sl @ new \<and> distinct new \<and> set new \<subseteq> board_cells - set sl"
proof (induction s end_row sl i c rule: scan_spaces.induct)
  case (1 s end_row space_list i add_counter)
  note unf = scan_spaces.simps[of s end_row space_list i add_counter]
  show ?case
  proof (cases "i < length space_list \<and> snd (space_list ! i) \<noteq> end_row")
    case False
    with "1.prems" have "scan_list res = space_list" by (auto simp: unf split: if_splits)
    then show ?thesis by simp
  next
    case True
    with "1.prems" obtain l2 c2 where
      a: "add_spaces s (space_list ! i) (new_list (space_list ! i)) space_list add_counter = Some (l2, c2)"
      and r: "scan_spaces s end_row l2 (Suc i) c2 = Some res"
      by (auto simp: unf split: option.splits)
    from add_spaces_result[OF a] obtain n1 where
      n1: "l2 = space_list @ n1" "distinct n1" "set n1 \<subseteq> board_cells - set space_list" by auto
    from True have t1: "i < length space_list" and t2: "snd (space_list ! i) \<noteq> end_row" by simp_all
    from "1.IH"[OF t1 t2 a refl r] obtain n2 where
      n2: "scan_list res = l2 @ n2" "distinct n2" "set n2 \<subseteq> board_cells - set l2" by auto
    from n1 n2 show ?thesis
      by (intro exI[of _ "n1 @ n2"]) auto
  qed
qed

lemma scan_spaces_found:
  "scan_spaces s end_row sl i c = Some (Found l) \<Longrightarrow> \<exists>x \<in> set l. snd x = end_row"
proof (induction s end_row sl i c rule: scan_spaces.induct)
  case (1 s end_row space_list i add_counter)
  note unf = scan_spaces.simps[of s end_row space_list i add_counter]
  from "1.prems" have t1: "i < length space_list" by (auto simp: unf split: if_splits)
  show ?case
  proof (cases "snd (space_list ! i) = end_row")
    case True
    with t1 "1.prems" have "l = space_list" by (simp add: unf)
    with True t1 show ?thesis by auto
  next
    case False
    with t1 "1.prems" obtain l2 c2 where
      a: "add_spaces s (space_list ! i) (new_list (space_list ! i)) space_list add_counter = Some (l2, c2)"
      and r: "scan_spaces s end_row l2 (Suc i) c2 = Some (Found l)"
      by (auto simp: unf split: option.splits)
    from "1.IH"[OF t1 False a refl r] show ?thesis .
  qed
qed

lemma rec_rounds_enough:
  "card (board_cells - set sl) < n \<Longrightarrow>
   rec_rounds n s sl end_row = Some (rec_is_valid_path s sl end_row)"
proof (induction n arbitrary: sl)
  case 0
  then show ?case by simp
next
  case (Suc n)
  note unf = rec_is_valid_path.simps[of s sl end_row]
  show ?case
  proof (cases "scan_spaces s end_row sl 0 0")
    case None
    then show ?thesis by (simp add: unf)
  next
    case (Some res)
    show ?thesis
    proof (cases res)
      case (Found l)
      with Some show ?thesis by (simp add: unf)
    next
      case (Exhausted l k)
      show ?thesis
      proof (cases "k = 0")
        case True
        with Some Exhausted show ?thesis by (simp add: unf)
      next
        case False
        from scan_spaces_result[OF Some[unfolded Exhausted]] obtain new where
          n: "l = sl @ new" "k = length new" "distinct new" "set new \<subseteq> board_cells - set sl"
          by auto
        from n(2) False have "0 < length new" by simp
        with card_missing_append[OF n(3,4)] Suc.prems
        have "card (board_cells - set (sl @ new)) < n" by linarith
        with n(1) have "card (board_cells - set l) < n" by simp
        from Suc.IH[OF this] Some Exhausted False show ?thesis by (simp add: unf)
      qed
    qed
  qed
qed

lemma rec_is_valid_path_visited:
  "rec_is_valid_path s sl end_row = Some (r, visited) \<Longrightarrow>
   (\<exists>new. visited = sl @ new \<and> distinct new \<and> set new \<subseteq> board_cells - set sl) \<and>
   (if r then \<exists>x \<in> set visited. snd x = end_row
    else scan_spaces s end_row visited 0 0 = Some (Exhausted visited 0))"
proof (induction s sl end_row rule: rec_is_valid_path.induct)
  case (1 s space_list end_row)
  note unf = rec_is_valid_path.simps[of s space_list end_row]
  from "1.prems" obtain res where res: "scan_spaces s end_row space_list 0 0 = Some res"
    by (auto simp: unf split: option.splits)
  from scan_spaces_grows[OF res] obtain n1 where
    n1: "scan_list res = space_list @ n1" "distinct n1" "set n1 \<subseteq> board_cells - set space_list"
    by auto
  show ?case
  proof (cases res)
    case (Found l)
    with res "1.prems" have rv: "r" "visited = l" by (auto simp: unf)
    from scan_spaces_found[OF res[unfolded Found]] rv n1 Found show ?thesis by auto
  next
    case (Exhausted l k)
    show ?thesis
    proof (cases "k = 0")
      case True
      with res Exhausted "1.prems" have rv: "\<not> r" "visited = l" by (auto simp: unf)
      from scan_spaces_result[OF res[unfolded Exhausted]] True have "l = space_list" by auto
      with res Exhausted True rv show ?thesis by auto
    next
      case False
      with res Exhausted "1.prems" have "rec_is_valid_path s l end_row = Some (r, visited)"
        by (simp add: unf)
      from "1.IH"[OF res Exhausted False this] obtain n2 where
        n2: "visited = l @ n2" "distinct n2" "set n2 \<subseteq> board_cells - set l"
        and fin: "if r then \<exists>x \<in> set visited. snd x = end_row
                  else scan_spaces s end_row visited 0 0 = Some (Exhausted visited 0)"
        by auto
      from n1 n2 Exhausted have "visited = space_list @ (n1 @ n2) \<and> distinct (n1 @ n2)
          \<and> set (n1 @ n2) \<subseteq> board_cells - set space_list" by auto
      with fin show ?thesis by blast
    qed
  qed
qed


text \<open>
  C8. For every game (the provisional fence is part of it), every start cell inside the
  board and every goal row: the search returns within 81 calls of
  \<open>_rec_is_valid_path\<close>, each being one expansion round (on a board of the right shape
  it returns an answer, on any other it may raise); every pass of the loop only appends
  to the list, and appends cells of the board that are new to it; the list the search
  leaves holds the start, is duplicate-free and inside the board, so it has at most 81
  cells; and the answer is \<open>True\<close> with a cell of the goal row in the list, or \<open>False\<close>
  with a list on which one more pass adds nothing.
\<close>

theorem search_terminates:
  assumes "in_board start"
  shows "rec_rounds 81 s [start] end_row = Some (rec_is_valid_path s [start] end_row)
       \<and> (shape s \<longrightarrow> rec_is_valid_path s [start] end_row \<noteq> None)
       \<and> (scan_spaces s end_row space_list i k = Some res \<longrightarrow>
            (\<exists>new. scan_list res = space_list @ new \<and> distinct new
                   \<and> set new \<subseteq> board_cells - set space_list))
       \<and> (rec_is_valid_path s [start] end_row = Some (r, visited) \<longrightarrow>
            start \<in> set visited \<and> set visited \<subseteq> board_cells \<and> distinct visited \<and>
            length visited \<le> 81 \<and>
            (if r then \<exists>x \<in> set visited. snd x = end_row
             else scan_spaces s end_row visited 0 0 = Some (Exhausted visited 0)))"
proof (intro conjI impI)
  from assms have sb: "start \<in> board_cells" by (simp add: in_board_cells)
  have "board_cells - set [start] = board_cells - {start}" by simp
  then have "card (board_cells - set [start]) = 80"
    using sb finite_board_cells card_board_cells by simp
  then have "card (board_cells - set [start]) < 81" by simp
  then show "rec_rounds 81 s [start] end_row = Some (rec_is_valid_path s [start] end_row)"
    by (rule rec_rounds_enough)
  {
    assume "shape s"
    from rec_is_valid_path_total[OF this, of "[start]" end_row] sb
    show "rec_is_valid_path s [start] end_row \<noteq> None" by auto
  }
  {
    assume "scan_spaces s end_row space_list i k = Some res"
    then show "\<exists>new. scan_list res = space_list @ new \<and> distinct new
                   \<and> set new \<subseteq> board_cells - set space_list"
      by (rule scan_spaces_grows)
  }
  assume rv: "rec_is_valid_path s [start] end_row = Some (r, visited)"
  from rec_is_valid_path_visited[OF rv] obtain new where
    n: "visited = [start] @ new" "distinct new" "set new \<subseteq> board_cells - set [start]"
    and fin: "if r then \<exists>x \<in> set visited. snd x = end_row
              else scan_spaces s end_row visited 0 0 = Some (Exhausted visited 0)"
    by blast
  from n show "start \<in> set visited" by simp
  from n sb show sub: "set visited \<subseteq> board_cells" by auto
  from n show d: "distinct visited" by auto
  from sub finite_board_cells have "card (set visited) \<le> card board_cells" by (rule card_mono[rotated])
  with d show "length visited \<le> 81" by (simp add: distinct_card card_board_cells)
  from fin show "if r then \<exists>x \<in> set visited. snd x = end_row
             else scan_spaces s end_row visited 0 0 = Some (Exhausted visited 0)" .
qed

theorem search_terminates_witness:
  "in_board (4, 8) \<and> shape sealing_game \<and>
   rec_rounds 81 sealing_game [(4, 8)] 0 = Some (rec_is_valid_path sealing_game [(4, 8)] 0) \<and>
   rec_is_valid_path sealing_game [(4, 8)] 0 \<noteq> None"
proof -
  have ib: "in_board (4, 8)" by (simp add: in_board_def)
  have sh: "shape sealing_game" using sealing_game_shape by simp
  from search_terminates[OF ib, of sealing_game 0] sh ib show ?thesis by simp
qed

section \<open>Which calls return\<close>

lemma shape_turn [simp]: "shape (s\<lparr>first_player_turn := b\<rparr>) = shape s"
  by (simp add: shape_def)

lemma near_new_list:
  "Some d \<in> set [Some (fst c, snd c + 1), Some (fst c, snd c - 1),
                   Some (fst c + 1, snd c), Some (fst c - 1, snd c)]
   \<longleftrightarrow> d \<in> set (new_list c)"
  by (auto simp: new_list_def)

text \<open>\<open>move_pawn\<close> gets as far as \<open>_is_legal_jump\<close>.\<close>

definition jump_tested :: "game \<Rightarrow> int \<Rightarrow> cell \<Rightarrow> bool" where
  "jump_tested s player destination =
     (player_may_move s player = Some True \<and> in_board destination \<and>
      is_adjacent (position s player) (position s (if player = 1 then 2 else 1)) = Some True \<and>
      is_adjacent (position s player) (Some destination) = Some False)"

lemma is_legal_move_returns:
  assumes sh: "shape s" and pp: "position s player = Some pp"
    and nj: "\<not> (is_adjacent (position s player) (position s (if player = 1 then 2 else 1)) = Some True
               \<and> is_adjacent (position s player) (Some destination) = Some False)"
  shows "\<exists>b. is_legal_move s player destination = Some b"
proof (cases "in_board destination")
  case False
  then show ?thesis by (auto simp: is_legal_move_def in_board_def)
next
  case True
  then have ib: "\<not> (\<not> (0 \<le> fst destination \<and> fst destination \<le> 8)
         \<or> \<not> (0 \<le> snd destination \<and> snd destination \<le> 8))"
    by (simp add: in_board_def)
  show ?thesis
  proof (cases "destination \<in> set (new_list pp)")
    case False
    then have near: "is_adjacent (Some pp) (Some destination) = Some False"
      by (simp add: is_adjacent_def near_new_list del: set_simps)
    with nj pp obtain a where
      a: "is_adjacent (Some pp) (position s (if player = 1 then 2 else 1)) = Some a" "\<not> a"
      by (auto simp: is_adjacent_def simp del: set_simps)
    show ?thesis
      unfolding is_legal_move_def using ib pp a near by (auto simp: Let_def simp del: set_simps)
  next
    case adj: True
    then have near: "is_adjacent (Some pp) (Some destination) = Some True"
      by (simp add: is_adjacent_def near_new_list del: set_simps)
    obtain a where a: "is_adjacent (Some pp) (position s (if player = 1 then 2 else 1)) = Some a"
      by (auto simp: is_adjacent_def simp del: set_simps)
    from move_blocked_total[OF sh position_Some(1)[OF pp] True adj] obtain b where
      b: "move_blocked s pp destination = Some b" ..
    show ?thesis
      unfolding is_legal_move_def using ib pp a near b
      by (cases a) (auto simp: Let_def simp del: set_simps)
  qed
qed

lemma is_legal_move_in_board:
  assumes "is_legal_move s player destination = Some True"
  shows "in_board destination"
  using assms by (auto simp: is_legal_move_def in_board_def split: if_splits)

lemma move_pawn_accepts:
  assumes sh: "shape s" and pp: "position s player = Some pp"
    and may: "player_may_move s player = Some True"
    and legal: "is_legal_move s player destination = Some True"
  shows "move_pawn s player destination =
           Some (True, put (put (s\<lparr>first_player_turn := \<not> first_player_turn s\<rparr>)
                              0 (nat (fst pp)) (nat (snd pp)) 0)
                         0 (nat (fst destination)) (nat (snd destination)) player)"
proof -
  let ?s1 = "s\<lparr>first_player_turn := \<not> first_player_turn s\<rparr>"
  let ?s2 = "put ?s1 0 (nat (fst pp)) (nat (snd pp)) 0"
  from position_Some(1)[OF pp] have p: "0 \<le> fst pp" "fst pp \<le> 8" "0 \<le> snd pp" "snd pp \<le> 8"
    by (simp_all add: in_board_def)
  from is_legal_move_in_board[OF legal]
  have d: "0 \<le> fst destination" "fst destination \<le> 8" "0 \<le> snd destination" "snd destination \<le> 8"
    by (simp_all add: in_board_def)
  have sh1: "shape ?s1" using sh by simp
  have 1: "board_set ?s1 0 (fst pp) (snd pp) 0 = Some ?s2"
    using board_set_put[OF sh1 _ _ p, of 0 0] by simp
  have 2: "board_set ?s2 0 (fst destination) (snd destination) player
             = Some (put ?s2 0 (nat (fst destination)) (nat (snd destination)) player)"
    using board_set_put[OF shape_put[OF sh1] _ _ d, of 0 0 "nat (fst pp)" "nat (snd pp)" 0 player]
    by simp
  show ?thesis
    using may legal pp 1 2 by (simp add: move_pawn_def Let_def)
qed

lemma move_pawn_returns:
  assumes sh: "shape s" and pl: "pawns_placed s" and p: "player = 1 \<or> player = 2"
    and nj: "\<not> jump_tested s player destination"
  shows "\<exists>b s'. move_pawn s player destination = Some (b, s')"
proof -
  from pl p obtain pp where pp: "position s player = Some pp"
    by (auto simp: pawns_placed_def)
  from player_may_move_total[OF pl] obtain may where may: "player_may_move s player = Some may" ..
  show ?thesis
  proof (cases may)
    case False
    with may show ?thesis by (auto simp: move_pawn_def)
  next
    case True
    show ?thesis
    proof (cases "in_board destination")
      case False
      then have "is_legal_move s player destination = Some False"
        by (auto simp: is_legal_move_def in_board_def)
      with may show ?thesis by (auto simp: move_pawn_def)
    next
      case ib: True
      with nj may True have
        "\<not> (is_adjacent (position s player) (position s (if player = 1 then 2 else 1)) = Some True
               \<and> is_adjacent (position s player) (Some destination) = Some False)"
        by (simp add: jump_tested_def)
      from is_legal_move_returns[OF sh pp this] obtain b where
        b: "is_legal_move s player destination = Some b" ..
      show ?thesis
      proof (cases b)
        case False
        with may b show ?thesis by (auto simp: move_pawn_def)
      next
        case True
        with move_pawn_accepts[OF sh pp] may \<open>may\<close> b show ?thesis by auto
      qed
    qed
  qed
qed

lemma place_fence_returns:
  assumes sh: "shape s" and pl: "pawns_placed s"
  shows "\<exists>r s'. place_fence s player orientation coords = Some (r, s') \<and>
           (r = PyBool True \<or> r = PyBool False \<or> r = PyStr ''breaks the fair play rule'')"
proof -
  let ?a = "fence_index orientation"
  from player_may_move_total[OF pl] obtain may where may: "player_may_move s player = Some may" ..
  show ?thesis
  proof (cases "\<not> may \<or> \<not> budget_left s player \<or> \<not> anchor_ok orientation coords")
    case True
    with may show ?thesis by (auto simp: place_fence_unfold)
  next
    case False
    then have ok: "may" "budget_left s player" "anchor_ok orientation coords" by auto
    note rg = anchor_ok_range[OF ok(3)]
    have ar: "0 \<le> ?a" "?a \<le> 2" and n: "nat ?a < 3" "nat (fst coords) < 9" "nat (snd coords) < 9"
      using rg by auto
    note f = board_get_nth[OF sh ar rg(2-)]
    from pl have "position s (if player = 1 then 2 else 1) \<noteq> None"
      by (simp add: pawns_placed_def)
    from is_valid_path_total[OF sh rg this] obtain v where
      v: "is_valid_path s player ?a coords
            = Some (v, put s (nat ?a) (nat (fst coords)) (nat (snd coords)) 0)" ..
    have bs: "board_set (put s (nat ?a) (nat (fst coords)) (nat (snd coords)) 0) ?a (fst coords) (snd coords) 1
                = Some (put s (nat ?a) (nat (fst coords)) (nat (snd coords)) 1)"
      using board_set_put[OF shape_put[OF sh] ar rg(2-), of "nat ?a" "nat (fst coords)" "nat (snd coords)" 0 1]
        put_put_same[OF sh n] by simp
    show ?thesis
      using may ok f v bs by (auto simp: place_fence_unfold)
  qed
qed


text \<open>
  C3, as amended. The claim lets no input raise. The code has no test of the player
  value: \<open>_position\<close> returns \<open>None\<close> for a value with no pawn and \<open>move_pawn\<close>
  subscripts it. What holds, on a board of the right shape with both pawns on it:
  \<open>place_fence\<close> returns \<open>True\<close>, \<open>False\<close> or the fair-play string for every player value,
  orientation and pair of integers; and \<open>move_pawn\<close> returns for Player 1 and Player 2
  and every pair of integers whenever the call does not get as far as \<open>_is_legal_jump\<close>.
  (What \<open>_is_legal_jump\<close> does is left open here: two of its board reads have the
  row where the column is meant and can leave the board, see \<open>left_jump_raises\<close>.)
\<close>

theorem calls_return:
  assumes "shape s" "pawns_placed s"
  shows "(\<exists>r s'. place_fence s player orientation coords = Some (r, s') \<and>
            (r = PyBool True \<or> r = PyBool False \<or> r = PyStr ''breaks the fair play rule''))
       \<and> ((player = 1 \<or> player = 2) \<and> \<not> jump_tested s player destination \<longrightarrow>
            (\<exists>b s'. move_pawn s player destination = Some (b, s')))"
  using place_fence_returns[OF assms] move_pawn_returns[OF assms] by blast

theorem calls_return_witness:
  "shape init_game \<and> pawns_placed init_game \<and> \<not> jump_tested init_game 1 (40, - 3) \<and>
   place_fence init_game 7 ''x'' (100, - 5) \<noteq> None \<and>
   move_pawn init_game 1 (40, - 3) \<noteq> None"
proof -
  have sh: "shape init_game" and pl: "pawns_placed init_game"
    and nj: "\<not> jump_tested init_game 1 (40, - 3)"
    by code_simp+
  from calls_return[OF sh pl, of 7 "''x''" "(100, - 5)"]
  have 1: "place_fence init_game 7 ''x'' (100, - 5) \<noteq> None" by auto
  from calls_return[OF sh pl, of 1 _ _ "(40, - 3)"] nj
  have 2: "move_pawn init_game 1 (40, - 3) \<noteq> None" by auto
  from sh pl nj 1 2 show ?thesis by simp
qed

text \<open>
  The claim fails for the player value 3, which has no pawn: \<open>move_pawn(3, (4,1))\<close> on
  the initial game raises.
\<close>

theorem unknown_player_move_raises:
  "position init_game 3 = None \<and> move_pawn init_game 3 (4, 1) = None"
  by code_simp

text \<open>
  A game played by Players 1 and 2 alone in which \<open>move_pawn\<close> raises: the jump to the
  left over a pawn on row 7 reads \<open>_board[1][3][9]\<close>.
\<close>

text \<open>
  Player 1 walks to (5,7) while Player 2 steps between (4,7) and (4,8) and ends on (4,7).
\<close>

definition left_jump_calls :: "call list" where
  "left_jump_calls =
     [Move_pawn 1 (5, 0), Move_pawn 2 (4, 7), Move_pawn 1 (5, 1), Move_pawn 2 (4, 8),
      Move_pawn 1 (5, 2), Move_pawn 2 (4, 7), Move_pawn 1 (5, 3), Move_pawn 2 (4, 8),
      Move_pawn 1 (5, 4), Move_pawn 2 (4, 7), Move_pawn 1 (5, 5), Move_pawn 2 (4, 8),
      Move_pawn 1 (5, 6), Move_pawn 2 (4, 7), Move_pawn 1 (5, 7), Place_fence 2 ''h'' (0, 1)]"

lemma left_jump_raises:
  "(case run init_game left_jump_calls of
      None \<Rightarrow> False
    | Some (rs, s) \<Rightarrow>
        rs = replicate 16 (PyBool True) \<and> shape s \<and> first_player_turn s \<and>
        position s 1 = Some (5, 7) \<and> position s 2 = Some (4, 7) \<and>
        jump_tested s 1 (3, 7) \<and> is_legal_jump s 1 (3, 7) = None \<and>
        move_pawn s 1 (3, 7) = None)"
  by code_simp

section \<open>The fair-play rule\<close>

text \<open>
  Paths. A fence lies on the edge between two neighbouring cells when the anchor of that
  edge holds one: the horizontal anchor \<open>(x, max y y')\<close> for a step in column \<open>x\<close>, the
  vertical anchor \<open>(max x x', y)\<close> for a step in row \<open>y\<close>. An open step goes from a cell
  of the board to a neighbouring cell of the board across an edge without a fence, and a
  path is a chain of open steps.
\<close>

definition fenced :: "game \<Rightarrow> cell \<Rightarrow> cell \<Rightarrow> bool" where
  "fenced s a b =
     (if fst a = fst b then board_get s 2 (fst a) (max (snd a) (snd b)) \<noteq> Some 0
      else board_get s 1 (max (fst a) (fst b)) (snd a) \<noteq> Some 0)"

definition open_steps :: "game \<Rightarrow> (cell \<times> cell) set" where
  "open_steps s =
     {(a, b). in_board a \<and> in_board b \<and> b \<in> set (new_list a) \<and> \<not> fenced s a b}"

definition has_path :: "game \<Rightarrow> cell \<Rightarrow> int \<Rightarrow> bool" where
  "has_path s start row = (\<exists>goal. (start, goal) \<in> (open_steps s)\<^sup>* \<and> snd goal = row)"

lemma fenced_fence_read:
  assumes "b \<in> set (new_list a)"
  shows "fenced s a b = (case fence_read a b of (k, x, y) \<Rightarrow> board_get s k x y \<noteq> Some 0)"
  using assms by (cases a; cases b) (auto simp: fenced_def fence_read_def new_list_def)

lemma not_blocked_open:
  assumes "b \<in> set (new_list a)" "move_blocked s a b = Some False"
  shows "\<not> fenced s a b"
proof -
  obtain k x y where fr: "fence_read a b = (k, x, y)" by (cases "fence_read a b") auto
  from assms(2) have "board_get s k x y = Some 0"
    by (auto simp: move_blocked_fence_read fr split: if_splits bind_splits)
  then show ?thesis by (simp add: fenced_fence_read[OF assms(1)] fr)
qed

lemma reach_in_board:
  assumes "(start, c) \<in> (open_steps s)\<^sup>*" "in_board start"
  shows "in_board c"
  using assms by (induction rule: rtrancl_induct) (auto simp: open_steps_def)

lemma add_spaces_reach:
  assumes sp: "(start, space) \<in> (open_steps s)\<^sup>*" and ib: "in_board space"
  shows "set nl \<subseteq> set (new_list space) \<Longrightarrow>
         \<forall>c \<in> set sl. (start, c) \<in> (open_steps s)\<^sup>* \<Longrightarrow>
         add_spaces s space nl sl k = Some (sl', k') \<Longrightarrow>
         \<forall>c \<in> set sl'. (start, c) \<in> (open_steps s)\<^sup>*"
proof (induction nl arbitrary: sl k)
  case Nil
  then show ?case by simp
next
  case (Cons a nl)
  from Cons.prems(1) have sub: "set nl \<subseteq> set (new_list space)" and a: "a \<in> set (new_list space)"
    by auto
  show ?case
  proof (cases "0 \<le> fst a \<and> fst a \<le> 8 \<and> 0 \<le> snd a \<and> snd a \<le> 8")
    case False
    with Cons.prems(3) have "add_spaces s space nl sl k = Some (sl', k')" by auto
    from Cons.IH[OF sub Cons.prems(2) this] show ?thesis .
  next
    case True
    then have iba: "in_board a" by (simp add: in_board_def)
    from True Cons.prems(3) obtain b where b: "move_blocked s space a = Some b"
      by (cases "move_blocked s space a") auto
    show ?thesis
    proof (cases "\<not> b \<and> a \<notin> set sl")
      case False
      with True b Cons.prems(3) have "add_spaces s space nl sl k = Some (sl', k')" by auto
      from Cons.IH[OF sub Cons.prems(2) this] show ?thesis .
    next
      case t: True
      with True b Cons.prems(3) have r: "add_spaces s space nl (sl @ [a]) (k + 1) = Some (sl', k')"
        by simp
      from t b have "move_blocked s space a = Some False" by simp
      from not_blocked_open[OF a this] ib iba a have "(space, a) \<in> open_steps s"
        by (simp add: open_steps_def)
      with sp have "(start, a) \<in> (open_steps s)\<^sup>*" by (rule rtrancl_into_rtrancl)
      with Cons.prems(2) have "\<forall>c \<in> set (sl @ [a]). (start, c) \<in> (open_steps s)\<^sup>*" by simp
      from Cons.IH[OF sub this r] show ?thesis .
    qed
  qed
qed

lemma scan_spaces_reach:
  "in_board start \<Longrightarrow> \<forall>c \<in> set sl. (start, c) \<in> (open_steps s)\<^sup>* \<Longrightarrow>
   scan_spaces s end_row sl i k = Some res \<Longrightarrow>
   \<forall>c \<in> set (scan_list res). (start, c) \<in> (open_steps s)\<^sup>*"
proof (induction s end_row sl i k rule: scan_spaces.induct)
  case (1 s end_row space_list i add_counter)
  note unf = scan_spaces.simps[of s end_row space_list i add_counter]
  show ?case
  proof (cases "i < length space_list \<and> snd (space_list ! i) \<noteq> end_row")
    case False
    with "1.prems"(3) have "scan_list res = space_list" by (auto simp: unf split: if_splits)
    with "1.prems"(2) show ?thesis by simp
  next
    case True
    then have t1: "i < length space_list" and t2: "snd (space_list ! i) \<noteq> end_row" by simp_all
    from True "1.prems"(3) obtain l2 c2 where
      a: "add_spaces s (space_list ! i) (new_list (space_list ! i)) space_list add_counter = Some (l2, c2)"
      and r: "scan_spaces s end_row l2 (Suc i) c2 = Some res"
      by (auto simp: unf split: option.splits)
    from t1 "1.prems"(2) have sp: "(start, space_list ! i) \<in> (open_steps s)\<^sup>*" by simp
    from add_spaces_reach[OF sp reach_in_board[OF sp "1.prems"(1)] subset_refl "1.prems"(2) a]
    have "\<forall>c \<in> set l2. (start, c) \<in> (open_steps s)\<^sup>*" .
    from "1.IH"[OF t1 t2 a refl "1.prems"(1) this r] show ?thesis .
  qed
qed

lemma rec_is_valid_path_reach:
  "in_board start \<Longrightarrow> \<forall>c \<in> set sl. (start, c) \<in> (open_steps s)\<^sup>* \<Longrightarrow>
   rec_is_valid_path s sl end_row = Some (r, visited) \<Longrightarrow>
   \<forall>c \<in> set visited. (start, c) \<in> (open_steps s)\<^sup>*"
proof (induction s sl end_row rule: rec_is_valid_path.induct)
  case (1 s space_list end_row)
  note unf = rec_is_valid_path.simps[of s space_list end_row]
  from "1.prems"(3) obtain res where res: "scan_spaces s end_row space_list 0 0 = Some res"
    by (auto simp: unf split: option.splits)
  note reach = scan_spaces_reach[OF "1.prems"(1,2) res]
  show ?case
  proof (cases res)
    case (Found l)
    with res "1.prems"(3) have "visited = l" by (auto simp: unf)
    with reach Found show ?thesis by simp
  next
    case (Exhausted l k)
    show ?thesis
    proof (cases "k = 0")
      case True
      with res Exhausted "1.prems"(3) have "visited = l" by (auto simp: unf)
      with reach Exhausted show ?thesis by simp
    next
      case False
      with res Exhausted "1.prems"(3) have rv: "rec_is_valid_path s l end_row = Some (r, visited)"
        by (simp add: unf)
      from reach Exhausted have "\<forall>c \<in> set l. (start, c) \<in> (open_steps s)\<^sup>*" by simp
      from "1.IH"[OF res Exhausted False "1.prems"(1) this rv] show ?thesis .
    qed
  qed
qed

text \<open>Every cell the search lists can be reached from the start by open steps.\<close>

lemma search_sound:
  assumes "in_board start" "rec_is_valid_path s [start] end_row = Some (True, visited)"
  shows "has_path s start end_row"
proof -
  have "\<forall>c \<in> set [start]. (start, c) \<in> (open_steps s)\<^sup>*" by simp
  from rec_is_valid_path_reach[OF assms(1) this assms(2)]
  have all: "\<forall>c \<in> set visited. (start, c) \<in> (open_steps s)\<^sup>*" .
  from rec_is_valid_path_visited[OF assms(2)] obtain x where x: "x \<in> set visited" "snd x = end_row"
    by auto
  with all have "(start, x) \<in> (open_steps s)\<^sup>*" by simp
  with x(2) show ?thesis unfolding has_path_def by blast
qed


lemma open_steps_board:
  assumes "board t = board s"
  shows "open_steps t = open_steps s"
  using assms by (simp add: open_steps_def fenced_def board_get_def)

lemma has_path_board:
  assumes "board t = board s"
  shows "has_path t = has_path s"
  using open_steps_board[OF assms] by (simp add: has_path_def fun_eq_iff)

lemma position_board:
  assumes "board t = board s"
  shows "position t p = position s p"
  using assms by (simp add: position_def)

lemma accepted_fence_path:
  assumes sh: "shape s" and pf: "place_fence s player orientation coords = Some (PyBool True, s')"
  shows "\<exists>start. position s' (if player = 1 then 2 else 1) = Some start \<and>
                  has_path s' start (if player = 1 then 0 else 8)"
  using sh pf
proof (cases rule: place_fence_outcomes)
  case (placed f)
  let ?a = "fence_index orientation"
  let ?s1 = "put s (nat ?a) (nat (fst coords)) (nat (snd coords)) 1"
  note rg = anchor_ok_range[OF placed(3)]
  have n: "0 < nat ?a" using rg by auto
  from placed(6) obtain start res where
    st: "position s (if player = 1 then 2 else 1) = Some start"
    and rv: "rec_is_valid_path ?s1 [start] (if player = 1 then 0 else 8) = Some res"
    and ok: "fst res"
    by (auto simp: is_valid_path_shape[OF sh rg] split: bind_splits)
  then have rv': "rec_is_valid_path ?s1 [start] (if player = 1 then 0 else 8) = Some (True, snd res)"
    by (cases res) simp
  from search_sound[OF position_Some(1)[OF st] rv']
  have hp: "has_path ?s1 start (if player = 1 then 0 else 8)" .
  have b: "board s' = board ?s1" using placed(8) by (simp add: spend_def)
  from position_board[OF b] position_put[OF sh n] st
  have "position s' (if player = 1 then 2 else 1) = Some start" by simp
  moreover from has_path_board[OF b] hp
  have "has_path s' start (if player = 1 then 0 else 8)" by simp
  ultimately show ?thesis by blast
qed simp_all

text \<open>
  C5, as amended. The claim promises a path to both players. \<open>_is_valid_path\<close> searches
  for the other player only, as its docstring says. What holds: after a placement by
  Player 1 that returns \<open>True\<close>, Player 2's pawn has a path of open steps to row 0, and
  after one by Player 2, Player 1's pawn has one to row 8. The path stays inside the board
  and crosses no fence; the cell of the placing player's pawn may lie on it. Nothing is
  promised to the placing player.
\<close>

theorem accepted_fence_leaves_opponent_path:
  assumes "shape s" "place_fence s player orientation coords = Some (PyBool True, s')"
  shows "(player = 1 \<longrightarrow> (\<exists>start. position s' 2 = Some start \<and> has_path s' start 0))
       \<and> (player = 2 \<longrightarrow> (\<exists>start. position s' 1 = Some start \<and> has_path s' start 8))"
  using accepted_fence_path[OF assms] by auto


text \<open>
  Player 1 fences in the cell (4,0) of their own pawn: the horizontal fence (4,1), then
  the vertical fences (4,0) and (5,0).
\<close>

definition self_trap_calls :: "call list" where
  "self_trap_calls =
     [Place_fence 1 ''h'' (4, 1), Move_pawn 2 (4, 7), Place_fence 1 ''v'' (4, 0),
      Move_pawn 2 (4, 6), Place_fence 1 ''v'' (5, 0)]"

definition self_trap_game :: game where
  "self_trap_game =
     (put (put (put (put (put init_game 0 4 8 0) 0 4 6 2) 2 4 1 1) 1 4 0 1) 1 5 0 1)
       \<lparr>player_one_fences := 7, first_player_turn := False\<rparr>"

lemma self_trap_game_facts:
  "run init_game self_trap_calls = Some (replicate 5 (PyBool True), self_trap_game) \<and>
   position self_trap_game 1 = Some (4, 0) \<and>
   fenced self_trap_game (4, 0) (4, 1) \<and> fenced self_trap_game (4, 0) (3, 0) \<and>
   fenced self_trap_game (4, 0) (5, 0) \<and>
   rec_is_valid_path self_trap_game [(4, 0)] 8 = Some (False, [(4, 0)])"
  by code_simp

lemma self_trap_closed:
  assumes "((4, 0), c) \<in> (open_steps self_trap_game)\<^sup>*"
  shows "c = (4, 0)"
  using assms
proof (induction rule: rtrancl_induct)
  case base
  show ?case by simp
next
  case (step b c)
  then have "((4, 0), c) \<in> open_steps self_trap_game" by simp
  then have ib: "in_board c" and nl: "c \<in> set (new_list (4, 0))"
    and nf: "\<not> fenced self_trap_game (4, 0) c"
    by (simp_all add: open_steps_def)
  from nl ib have "c = (4, 1) \<or> c = (3, 0) \<or> c = (5, 0)"
    by (auto simp: new_list_def in_board_def)
  with nf self_trap_game_facts show ?case by auto
qed

text \<open>
  The claim fails for the placing player: each of the three placements is accepted and
  committed, and after the third Player 1's pawn, on (4,0), has no path to row 8.
\<close>

theorem placing_player_trapped_counterexample:
  "run init_game self_trap_calls = Some (replicate 5 (PyBool True), self_trap_game) \<and>
   position self_trap_game 1 = Some (4, 0) \<and>
   \<not> has_path self_trap_game (4, 0) 8"
proof -
  have "\<not> has_path self_trap_game (4, 0) 8"
  proof
    assume "has_path self_trap_game (4, 0) 8"
    then obtain goal where "((4, 0), goal) \<in> (open_steps self_trap_game)\<^sup>*" "snd goal = 8"
      by (auto simp: has_path_def)
    with self_trap_closed[of goal] show False by simp
  qed
  with self_trap_game_facts show ?thesis by simp
qed

definition one_fence_game :: game where
  "one_fence_game = (put init_game 1 1 1 1)\<lparr>player_one_fences := 9, first_player_turn := False\<rparr>"

lemma one_fence_game_placed:
  "place_fence init_game 1 ''v'' (1, 1) = Some (PyBool True, one_fence_game) \<and>
   position one_fence_game 2 = Some (4, 8)"
  by code_simp

theorem accepted_fence_leaves_opponent_path_witness:
  "shape init_game \<and>
   place_fence init_game 1 ''v'' (1, 1) = Some (PyBool True, one_fence_game) \<and>
   position one_fence_game 2 = Some (4, 8) \<and> has_path one_fence_game (4, 8) 0"
proof -
  have sh: "shape init_game" by code_simp
  have pf: "place_fence init_game 1 ''v'' (1, 1) = Some (PyBool True, one_fence_game)"
    and ps: "position one_fence_game 2 = Some (4, 8)"
    using one_fence_game_placed by simp_all
  from accepted_fence_leaves_opponent_path[OF sh pf] ps
  have "has_path one_fence_game (4, 8) 0" by simp
  with sh pf ps show ?thesis by simp
qed

text \<open>
  The search does not treat the placing player's pawn as an obstacle. Here every edge
  from row 1 to row 0 is fenced but the one in column 4, below which Player 1 stands on
  (4,0); Player 1's last placement is accepted although every path of Player 2 to row 0
  enters the cell of Player 1's pawn.
\<close>

definition open_steps_avoiding :: "game \<Rightarrow> cell \<Rightarrow> (cell \<times> cell) set" where
  "open_steps_avoiding s c = {(a, b). (a, b) \<in> open_steps s \<and> b \<noteq> c}"

definition gate_calls :: "call list" where
  "gate_calls =
     [Place_fence 1 ''h'' (0, 1), Place_fence 2 ''h'' (5, 1), Place_fence 1 ''h'' (1, 1),
      Place_fence 2 ''h'' (6, 1), Place_fence 1 ''h'' (2, 1), Place_fence 2 ''h'' (7, 1),
      Place_fence 1 ''h'' (3, 1), Place_fence 2 ''h'' (8, 1), Place_fence 1 ''v'' (1, 5)]"

definition gate_game :: game where
  "gate_game =
     (put (put (put (put (put (put (put (put (put init_game
        2 0 1 1) 2 5 1 1) 2 1 1 1) 2 6 1 1) 2 2 1 1) 2 7 1 1) 2 3 1 1) 2 8 1 1) 1 1 5 1)
       \<lparr>player_one_fences := 5, player_two_fences := 6, first_player_turn := False\<rparr>"

lemma gate_game_facts:
  "run init_game gate_calls = Some (replicate 9 (PyBool True), gate_game) \<and>
   position gate_game 1 = Some (4, 0) \<and> position gate_game 2 = Some (4, 8) \<and>
   list_all (\<lambda>x. fenced gate_game (x, 1) (x, 0)) [0, 1, 2, 3, 5, 6, 7, 8]"
  by code_simp

lemma gate_game_rows:
  assumes "((4, 8), c) \<in> (open_steps_avoiding gate_game (4, 0))\<^sup>*"
  shows "1 \<le> snd c"
  using assms
proof (induction rule: rtrancl_induct)
  case base
  show ?case by simp
next
  case (step b c)
  from step.hyps(2) have ib: "in_board b" "in_board c" and nl: "c \<in> set (new_list b)"
    and nf: "\<not> fenced gate_game b c" and ne: "c \<noteq> (4, 0)"
    by (simp_all add: open_steps_avoiding_def open_steps_def)
  show ?case
  proof (rule ccontr)
    assume "\<not> 1 \<le> snd c"
    with ib(2) have c0: "snd c = 0" by (simp add: in_board_def)
    with nl step.IH have b: "b = (fst c, 1)" by (cases b; cases c) (auto simp: new_list_def)
    from c0 have c: "c = (fst c, 0)" by (cases c) simp
    from ib(2) ne c0 have "fst c \<in> set [0, 1, 2, 3, 5, 6, 7, 8]"
      by (cases c) (auto simp: in_board_def)
    with gate_game_facts have "fenced gate_game (fst c, 1) (fst c, 0)"
      by (simp only: list_all_iff)
    with nf b c show False by metis
  qed
qed

lemma opponent_path_enters_pawn_cell:
  "run init_game gate_calls = Some (replicate 9 (PyBool True), gate_game) \<and>
   position gate_game 1 = Some (4, 0) \<and> position gate_game 2 = Some (4, 8) \<and>
   \<not> (\<exists>goal. ((4, 8), goal) \<in> (open_steps_avoiding gate_game (4, 0))\<^sup>* \<and> snd goal = 0)"
  using gate_game_facts gate_game_rows by fastforce

section \<open>The invariants hold in every played game\<close>

text \<open>
  The theorems above assume a board of the right shape, fence arrays of 0 and 1, or both
  pawns on the board. The initial game has all three, and every call by Player 1 or
  Player 2 that returns keeps them.
\<close>

lemma position_from_finds:
  assumes "c \<in> set cols" "length (arr ! c) = 9" "y < 9" "arr ! c ! y = p"
    and "\<forall>k \<in> set cols. length (arr ! k) = 9"
  shows "position_from arr p cols \<noteq> None"
  using assms(1,5)
proof (induction cols)
  case Nil
  then show ?case by simp
next
  case (Cons column rest)
  show ?case
  proof (cases "p \<in> set (arr ! column)")
    case True
    from Cons.prems(2) have len: "length (arr ! column) = 9" by simp
    from True obtain row where "row < length (arr ! column)" "arr ! column ! row = p"
      by (auto simp: in_set_conv_nth)
    with len have "\<exists>row \<in> set [0..<9]. arr ! column ! row = p" by auto
    then have "find (\<lambda>row. arr ! column ! row = p) [0..<9] \<noteq> None"
      unfolding find_None_iff by blast
    with True show ?thesis by auto
  next
    case False
    have "p \<in> set (arr ! c)" using assms(2,3,4) by (auto simp: in_set_conv_nth)
    with False have "c \<noteq> column" by auto
    with Cons.prems have "c \<in> set rest" "\<forall>k \<in> set rest. length (arr ! k) = 9" by auto
    from Cons.IH[OF this] False show ?thesis by simp
  qed
qed

lemma position_finds:
  assumes "shape s" "x < 9" "y < 9" "board s ! 0 ! x ! y = p"
  shows "position s p \<noteq> None"
proof -
  have len: "\<forall>k \<in> set [0..<9]. length (board s ! 0 ! k) = 9"
    using assms(1) by (auto simp: shape_iff)
  then have "length (board s ! 0 ! x) = 9" using assms(2) by simp
  from position_from_finds[OF _ this assms(3,4) len] assms(2)
  show ?thesis by (simp add: position_def del: upt_Suc)
qed

lemma fences_binary_put_pawn:
  assumes "shape s" "fences_binary s"
  shows "fences_binary (put s 0 x y v)"
  using assms by (simp add: fences_binary_def shape_iff)

lemma fences_binary_turn [simp]:
  "fences_binary (s\<lparr>first_player_turn := b\<rparr>) = fences_binary s"
  by (simp add: fences_binary_def)

lemma fences_binary_spend [simp]: "fences_binary (spend s p) = fences_binary s"
  by (simp add: fences_binary_def)

lemma shape_spend [simp]: "shape (spend s p) = shape s"
  by (simp add: shape_def)

lemma list_all_update:
  assumes "list_all P xs" "P v"
  shows "list_all P (xs[i := v])"
  using assms set_update_subset_insert[of xs i v] by (auto simp: list_all_iff)

lemma fences_binary_put_fence:
  assumes "shape s" "fences_binary s" "v = 0 \<or> v = 1" "a < 3" "x < 9"
  shows "fences_binary (put s a x y v)"
proof -
  let ?P = "list_all (list_all (\<lambda>v. v = 0 \<or> v = (1::int)))"
  have len: "length (board s) = 3" using assms(1) by (simp add: shape_iff)
  have col: "list_all (\<lambda>v. v = 0 \<or> v = 1) (board s ! a ! x)" if "a = 1 \<or> a = 2"
  proof -
    from that assms(2) have "?P (board s ! a)" by (auto simp: fences_binary_def)
    moreover from that assms(1) have "length (board s ! a) = 9" by (auto simp: shape_iff)
    ultimately show ?thesis using assms(5) by (simp add: list_all_length)
  qed
  have upd: "?P ((board s ! a)[x := (board s ! a ! x)[y := v]])" if "a = 1 \<or> a = 2"
  proof (rule list_all_update)
    from that assms(2) show "?P (board s ! a)" by (auto simp: fences_binary_def)
    from assms(3) show "list_all (\<lambda>v. v = 0 \<or> v = 1) ((board s ! a ! x)[y := v])"
      by (intro list_all_update col[OF that]) simp
  qed
  consider "a = 0" | "a = 1" | "a = 2" using assms(4) by linarith
  then show ?thesis
  proof cases
    case 1
    with assms(1,2) show ?thesis by (simp add: fences_binary_put_pawn)
  next
    case 2
    with upd assms(2) len show ?thesis by (simp add: fences_binary_def)
  next
    case 3
    with upd assms(2) len show ?thesis by (simp add: fences_binary_def)
  qed
qed


text \<open>
  The three invariants together, and the player value of a call.
\<close>

definition well_formed :: "game \<Rightarrow> bool" where
  "well_formed s = (shape s \<and> fences_binary s \<and> pawns_placed s)"

fun caller :: "call \<Rightarrow> int" where
  "caller (Move_pawn player destination) = player"
| "caller (Place_fence player orientation coords) = player"

lemma move_pawn_True:
  assumes "move_pawn s player destination = Some (True, s')"
  shows "player_may_move s player = Some True \<and> is_legal_move s player destination = Some True
         \<and> position s player \<noteq> None"
  using assms by (auto simp: move_pawn_def Let_def split: bind_splits if_splits)

lemma legal_move_off_opponent:
  assumes p: "player = 1 \<or> player = 2" and may: "player_may_move s player = Some True"
    and legal: "is_legal_move s player destination = Some True"
    and q: "position s (if player = 1 then 2 else 1) = Some qq"
  shows "destination \<noteq> qq"
proof
  assume d: "destination = qq"
  from p may have turn: "(if first_player_turn s then 2 else 1) = (if player = 1 then 2 else (1::int))"
    by (auto simp: player_may_move_def split: bind_splits if_splits)
  from legal obtain pp where pp: "position s player = Some pp"
    by (cases "position s player") (auto simp: is_legal_move_def is_adjacent_def Let_def split: if_splits)
  have mb: "move_blocked s pp destination = Some True"
    using q d turn by (simp add: move_blocked_def)
  obtain a where a: "is_adjacent (Some pp) (Some qq) = Some a"
    by (simp add: is_adjacent_def del: set_simps)
  from legal have ib: "\<not> (\<not> (0 \<le> fst destination \<and> fst destination \<le> 8)
         \<or> \<not> (0 \<le> snd destination \<and> snd destination \<le> 8))"
    by (auto simp: is_legal_move_def split: if_splits)
  from legal show False
    unfolding is_legal_move_def using ib pp q d a mb
    by (cases a) (simp_all add: Let_def del: set_simps)
qed

lemma move_pawn_keeps:
  assumes sh: "shape s" and fb: "fences_binary s"
    and mv: "move_pawn s player destination = Some (b, s')"
  shows "shape s' \<and> fences_binary s'"
proof (cases b)
  case False
  with mv move_pawn_refused[of s player destination s'] sh fb show ?thesis by simp
next
  case True
  with mv move_pawn_True[of s player destination s'] obtain pp where
    pp: "position s player = Some pp" and may: "player_may_move s player = Some True"
    and legal: "is_legal_move s player destination = Some True" by auto
  from move_pawn_accepts[OF sh pp may legal] mv True
  have "s' = put (put (s\<lparr>first_player_turn := \<not> first_player_turn s\<rparr>)
                              0 (nat (fst pp)) (nat (snd pp)) 0)
                         0 (nat (fst destination)) (nat (snd destination)) player" by simp
  with sh fb show ?thesis
    by (simp add: shape_put fences_binary_put_pawn)
qed

lemma move_pawn_keeps_pawns:
  assumes wf: "well_formed s" and p: "player = 1 \<or> player = 2"
    and mv: "move_pawn s player destination = Some (b, s')"
  shows "pawns_placed s'"
proof (cases b)
  case False
  with mv move_pawn_refused[of s player destination s'] wf show ?thesis
    by (simp add: well_formed_def)
next
  case True
  from wf have sh: "shape s" and pl: "pawns_placed s" by (simp_all add: well_formed_def)
  let ?q = "if player = 1 then 2 else (1::int)"
  from True mv move_pawn_True[of s player destination s'] obtain pp where
    pp: "position s player = Some pp" and may: "player_may_move s player = Some True"
    and legal: "is_legal_move s player destination = Some True" by auto
  from pl p obtain qq where qq: "position s ?q = Some qq" by (auto simp: pawns_placed_def)
  let ?s1 = "s\<lparr>first_player_turn := \<not> first_player_turn s\<rparr>"
  let ?s2 = "put ?s1 0 (nat (fst pp)) (nat (snd pp)) 0"
  from move_pawn_accepts[OF sh pp may legal] mv True
  have s': "s' = put ?s2 0 (nat (fst destination)) (nat (snd destination)) player" by simp
  have sh1: "shape ?s1" using sh by simp
  have sh2: "shape ?s2" using sh1 by (rule shape_put)
  have sh': "shape s'" unfolding s' using sh2 by (rule shape_put)
  from position_Some[OF pp] have pn: "nat (fst pp) < 9" "nat (snd pp) < 9"
    and pv: "board s ! 0 ! nat (fst pp) ! nat (snd pp) = player"
    by (auto simp: in_board_def)
  from position_Some[OF qq] have qn: "nat (fst qq) < 9" "nat (snd qq) < 9"
    and qv: "board s ! 0 ! nat (fst qq) ! nat (snd qq) = ?q"
    and qb: "in_board qq"
    by (auto simp: in_board_def)
  from is_legal_move_in_board[OF legal] have dn: "nat (fst destination) < 9" "nat (snd destination) < 9"
    and db: "in_board destination"
    by (auto simp: in_board_def)
  have dq: "destination \<noteq> qq" by (rule legal_move_off_opponent[OF p may legal qq])
  have pq: "pp \<noteq> qq" using pv qv p by auto
  have "board s' ! 0 ! nat (fst destination) ! nat (snd destination) = player"
    unfolding s' using put_nth[OF sh2 _ dn _ dn, of 0 0 player] by simp
  from position_finds[OF sh' dn this] have 1: "position s' player \<noteq> None" .
  have neq1: "\<not> (nat (fst qq) = nat (fst destination) \<and> nat (snd qq) = nat (snd destination))"
    using dq qb db by (cases qq; cases destination) (auto simp: in_board_def)
  have neq2: "\<not> (nat (fst qq) = nat (fst pp) \<and> nat (snd qq) = nat (snd pp))"
    using pq qb position_Some(1)[OF pp] by (cases qq; cases pp) (auto simp: in_board_def)
  have "board s' ! 0 ! nat (fst qq) ! nat (snd qq) = board ?s2 ! 0 ! nat (fst qq) ! nat (snd qq)"
    unfolding s' using put_nth[OF sh2 _ dn _ qn, of 0 0 player] neq1 by simp
  also have "\<dots> = board ?s1 ! 0 ! nat (fst qq) ! nat (snd qq)"
    using put_nth[OF sh1 _ pn _ qn, of 0 0 0] neq2 by simp
  finally have "board s' ! 0 ! nat (fst qq) ! nat (snd qq) = ?q" using qv by simp
  from position_finds[OF sh' qn this] have 2: "position s' ?q \<noteq> None" .
  from 1 2 p show ?thesis by (auto simp: pawns_placed_def)
qed

lemma place_fence_keeps:
  assumes sh: "shape s" and fb: "fences_binary s"
    and pf: "place_fence s player orientation coords = Some (r, s')"
  shows "shape s' \<and> fences_binary s' \<and> (pawns_placed s \<longrightarrow> pawns_placed s')"
  using sh pf
proof (cases rule: place_fence_outcomes)
  case refused
  with sh fb show ?thesis by simp
next
  case (unfair f)
  with place_fence_refused[OF sh fb pf] sh fb show ?thesis by simp
next
  case (placed f)
  let ?a = "fence_index orientation"
  let ?s1 = "put s (nat ?a) (nat (fst coords)) (nat (snd coords)) 1"
  note rg = anchor_ok_range[OF placed(3)]
  have n: "nat ?a < 3" "nat (fst coords) < 9" "0 < nat ?a" using rg by auto
  have 1: "shape ?s1" using sh by (rule shape_put)
  have 2: "fences_binary ?s1" using fences_binary_put_fence[OF sh fb _ n(1,2)] by simp
  have 3: "position s' p = position s p" for p
    using placed(8) position_put[OF sh n(3)] by (simp add: position_def spend_def)
  from placed(8) 1 2 3 show ?thesis by (simp add: pawns_placed_def)
qed

lemma do_call_keeps:
  assumes wf: "well_formed s" and c: "caller c = 1 \<or> caller c = 2"
    and dc: "do_call s c = Some (r, s')"
  shows "well_formed s'"
proof (cases c)
  case (Move_pawn q d)
  from dc[unfolded Move_pawn] obtain m where m: "move_pawn s q d = Some m" "s' = snd m"
    by (cases "move_pawn s q d") auto
  then have mv: "move_pawn s q d = Some (fst m, s')" by simp
  from c Move_pawn have q: "q = 1 \<or> q = 2" by simp
  from move_pawn_keeps[OF _ _ mv] move_pawn_keeps_pawns[OF wf q mv] wf
  show ?thesis by (simp add: well_formed_def)
next
  case (Place_fence q ori xy)
  with dc have pf: "place_fence s q ori xy = Some (r, s')" by simp
  from place_fence_keeps[OF _ _ pf] wf show ?thesis by (simp add: well_formed_def)
qed

lemma run_keeps:
  "well_formed s \<Longrightarrow> \<forall>c \<in> set cs. caller c = 1 \<or> caller c = 2 \<Longrightarrow>
   run s cs = Some (rs, s') \<Longrightarrow> well_formed s'"
proof (induction cs arbitrary: s rs)
  case Nil
  then show ?case by simp
next
  case (Cons c cs)
  from Cons.prems(3) obtain r s1 rs1 where
    c: "do_call s c = Some (r, s1)" and rest: "run s1 cs = Some (rs1, s')"
    by (auto split: bind_splits)
  from Cons.prems(2) have "caller c = 1 \<or> caller c = 2" by simp
  from do_call_keeps[OF Cons.prems(1) this c] have "well_formed s1" .
  from Cons.IH[OF this _ rest] Cons.prems(2) show ?case by simp
qed

lemma init_game_well_formed: "well_formed init_game"
  by code_simp

text \<open>
  Every game that calls by Players 1 and 2 reach from the start has the three
  invariants.
\<close>

lemma played_game_well_formed:
  assumes "\<forall>c \<in> set cs. caller c = 1 \<or> caller c = 2" "run init_game cs = Some (rs, s)"
  shows "shape s" "fences_binary s" "pawns_placed s"
  using run_keeps[OF init_game_well_formed assms] by (simp_all add: well_formed_def)

end
